theory Spec2Isabelle
  imports Complex_Main "HOL-Library.Word"
begin

section \<open>The editor view: render scheduling and render passes (view.ts)\<close>

text \<open>
  The class \<open>View\<close> owns an ordered array of view parts, a separate \<open>viewLines\<close> part,
  and one scheduling handle \<open>_renderAnimationFrame\<close>. Objects are kept in an explicit
  store: a view part is an address (a \<open>nat\<close>), \<open>partStore\<close> maps an address to the
  object, and \<open>viewParts\<close> is the array of addresses in the order of the \<open>push\<close> calls.
  Exceptions are values of type \<open>exn\<close>; a computation that may throw returns the state it
  reached together with \<open>Some e\<close> when it threw \<open>e\<close>.
\<close>

type_synonym exn = nat

text \<open>
  Modelled from the spec: the class \<open>ViewPart\<close> (./viewPart) is not among the sources.
  The spec gives its surface: \<open>needsRender()\<close> (here \<open>shouldRender\<close>), \<open>forceShouldRender()\<close>
  which marks the part dirty unconditionally, \<open>prepare(snapshot)\<close> and \<open>commit()\<close> (here
  \<open>prepareRender\<close> and \<open>render\<close>), and the reset of the dirty flag by the part itself after
  commit (\<open>onDidRender\<close>). What \<open>prepareRender\<close> and \<open>render\<close> do inside is opaque; the two
  \<open>throws\<close> fields say whether the call throws, and which exception.
\<close>

record viewPart =
  shouldRender_flag :: bool
  prepareRender_throws :: "exn option"
  render_throws :: "exn option"

text \<open>
  Modelled from the spec: the class \<open>ViewLines\<close> is not among the sources either. It has
  the same dirty flag. \<open>renderText\<close> is opaque: it may throw, and, as view.ts says at its
  call, it may cause scroll events, which mark other parts dirty (\<open>renderText_scrolls\<close>
  lists the addresses of those parts).
\<close>

record viewLinesPart =
  vl_shouldRender_flag :: bool
  renderText_throws :: "exn option"
  renderText_scrolls :: "nat list"

record partialViewportData =
  vp_startLineNumber :: nat
  vp_endLineNumber :: nat
  vp_centeredLineNumber :: nat

record ViewportData =
  vd_selections :: "nat list"
  vd_partialData :: partialViewportData
  vd_whitespaceViewportData :: "nat list"

datatype RenderingContext = RenderingContext ViewportData

type_synonym zone = nat

text \<open>
  Every call the view makes on a collaborator is recorded, in order; a call of a method of
  the view zones is recorded with its outcome.
\<close>

datatype event =
    ActualRender
  | SetViewport nat nat nat
  | NewViewportData ViewportData
  | OnBeforeRender ViewportData
  | RenderText ViewportData
  | ViewLinesOnDidRender
  | NewRenderingContext RenderingContext
  | PrepareRender nat RenderingContext
  | Render nat RenderingContext
  | OnDidRender nat
  | ZonesAddZone zone "exn + nat"
  | ZonesRemoveZone nat "exn + bool"
  | ZonesLayoutZone nat "exn + bool"
  | OnHeightMaybeChanged
  | ViewZonesChangedEvent

text \<open>
  The class \<open>ViewZones\<close> is not among the sources: the three methods \<open>View.change\<close> calls
  are parameters, functions on an abstract state \<open>'z\<close> that return the new state and
  either the exception thrown or the value returned.
\<close>

record 'z ViewZones =
  zonesState :: 'z
  vz_addZone :: "'z \<Rightarrow> zone \<Rightarrow> 'z \<times> (exn + nat)"
  vz_removeZone :: "'z \<Rightarrow> nat \<Rightarrow> 'z \<times> (exn + bool)"
  vz_layoutZone :: "'z \<Rightarrow> nat \<Rightarrow> 'z \<times> (exn + bool)"

text \<open>
  The state of a view and of the collaborators it talks to. \<open>hostQueue\<close> and
  \<open>nextHandle\<close> are the host's animation-frame queue; \<open>unexpectedErrors\<close> is what
  \<open>onUnexpectedError\<close> has received; \<open>inDOM\<close> is what \<open>dom.isInDOM(this.domNode.domNode)\<close>
  answers.
\<close>

record 'z view =
  renderAnimationFrame :: "nat option"
  viewParts :: "nat list"
  partStore :: "nat \<Rightarrow> viewPart"
  viewLines :: viewLinesPart
  contentWidgets :: nat
  onBeforeRender_throws :: "exn option"
  viewZones :: "'z ViewZones"
  inDOM :: bool
  cursorViewSelections :: "nat list"
  linesViewportData :: partialViewportData
  whitespaceViewportData :: "nat list"
  hostQueue :: "nat list"
  nextHandle :: nat
  unexpectedErrors :: "exn list"
  trace :: "event list"

definition logEvent :: "event \<Rightarrow> 'z view \<Rightarrow> 'z view" where
  "logEvent e s = s\<lparr>trace := trace s @ [e]\<rparr>"

text \<open>\<open>onUnexpectedError(e)\<close>: the sink records the exception and does not throw.\<close>

definition onUnexpectedError :: "exn \<Rightarrow> 'z view \<Rightarrow> 'z view" where
  "onUnexpectedError e s = s\<lparr>unexpectedErrors := unexpectedErrors s @ [e]\<rparr>"

text \<open>
  \<open>safeInvokeNoArg(func)\<close>. The closure \<open>func\<close> may have captured local variables of its
  caller, which it can assign; they are the component \<open>'a\<close> of the state it runs on, and
  an assignment made before a throw stays.
\<close>

definition safeInvokeNoArg ::
  "('a \<times> 'z view \<Rightarrow> ('a \<times> 'z view) \<times> exn option) \<Rightarrow> 'a \<times> 'z view \<Rightarrow> 'a \<times> 'z view" where
  "safeInvokeNoArg func ls =
     (case func ls of
        (ls', None) \<Rightarrow> ls'
      | ((l, s'), Some e) \<Rightarrow> (l, onUnexpectedError e s'))"

text \<open>
  Sequencing of two computations that may throw: the second runs if the first returned.
  If the first threw, the exception goes on and \<open>stay\<close> keeps of its state what the second
  would have worked on.
\<close>

definition andThen ::
  "'s \<times> exn option \<Rightarrow> ('s \<Rightarrow> 't \<times> exn option) \<Rightarrow> ('s \<Rightarrow> 't) \<Rightarrow> 't \<times> exn option" where
  "andThen r f stay = (case r of (s, Some e) \<Rightarrow> (stay s, Some e) | (s, None) \<Rightarrow> f s)"

subsection \<open>The methods of a view part\<close>

definition shouldRender :: "'z view \<Rightarrow> nat \<Rightarrow> bool" where
  "shouldRender s a = shouldRender_flag (partStore s a)"

definition forceShouldRender :: "nat \<Rightarrow> 'z view \<Rightarrow> 'z view" where
  "forceShouldRender a s =
     s\<lparr>partStore := (partStore s)(a := (partStore s a)\<lparr>shouldRender_flag := True\<rparr>)\<rparr>"

definition onDidRender :: "nat \<Rightarrow> 'z view \<Rightarrow> 'z view" where
  "onDidRender a s =
     logEvent (OnDidRender a)
       (s\<lparr>partStore := (partStore s)(a := (partStore s a)\<lparr>shouldRender_flag := False\<rparr>)\<rparr>)"

definition prepareRender :: "nat \<Rightarrow> RenderingContext \<Rightarrow> 'z view \<Rightarrow> 'z view \<times> exn option" where
  "prepareRender a ctx s = (logEvent (PrepareRender a ctx) s, prepareRender_throws (partStore s a))"

definition viewPart_render :: "nat \<Rightarrow> RenderingContext \<Rightarrow> 'z view \<Rightarrow> 'z view \<times> exn option" where
  "viewPart_render a ctx s = (logEvent (Render a ctx) s, render_throws (partStore s a))"

definition onBeforeRender :: "ViewportData \<Rightarrow> 'z view \<Rightarrow> 'z view \<times> exn option" where
  "onBeforeRender vd s = (logEvent (OnBeforeRender vd) s, onBeforeRender_throws s)"

subsection \<open>The methods of the view lines\<close>

definition viewLines_shouldRender :: "'z view \<Rightarrow> bool" where
  "viewLines_shouldRender s = vl_shouldRender_flag (viewLines s)"

definition viewLines_forceShouldRender :: "'z view \<Rightarrow> 'z view" where
  "viewLines_forceShouldRender s = s\<lparr>viewLines := (viewLines s)\<lparr>vl_shouldRender_flag := True\<rparr>\<rparr>"

definition viewLines_onDidRender :: "'z view \<Rightarrow> 'z view" where
  "viewLines_onDidRender s =
     logEvent ViewLinesOnDidRender
       (s\<lparr>viewLines := (viewLines s)\<lparr>vl_shouldRender_flag := False\<rparr>\<rparr>)"

definition renderText :: "ViewportData \<Rightarrow> 'z view \<Rightarrow> 'z view \<times> exn option" where
  "renderText vd s =
     (case renderText_throws (viewLines s) of
        Some e \<Rightarrow> (logEvent (RenderText vd) s, Some e)
      | None \<Rightarrow> (fold forceShouldRender (renderText_scrolls (viewLines s))
                   (logEvent (RenderText vd) s), None))"

subsection \<open>Scheduling\<close>

text \<open>
  Modelled from the spec: \<open>dom.runAtThisOrScheduleAtNextAnimationFrame\<close> is not among the
  sources. The spec's host display-refresh primitive accepts a zero-argument callback,
  invokes it at most once per scheduled frame, and hands back a handle. The only callback
  the view ever passes is its own \<open>_onRenderScheduled\<close>, so the queue holds the handles.
\<close>

definition runAtThisOrScheduleAtNextAnimationFrame :: "'z view \<Rightarrow> nat \<times> 'z view" where
  "runAtThisOrScheduleAtNextAnimationFrame s =
     (nextHandle s, s\<lparr>hostQueue := hostQueue s @ [nextHandle s], nextHandle := Suc (nextHandle s)\<rparr>)"

definition scheduleRender :: "'z view \<Rightarrow> 'z view" where
  "scheduleRender s =
     (if renderAnimationFrame s = None
      then (case runAtThisOrScheduleAtNextAnimationFrame s of
              (h, s') \<Rightarrow> s'\<lparr>renderAnimationFrame := Some h\<rparr>)
      else s)"

subsection \<open>The render pass\<close>

fun getViewPartsToRender_loop :: "'z view \<Rightarrow> nat list \<Rightarrow> nat list \<Rightarrow> nat list" where
  "getViewPartsToRender_loop s [] result = result"
| "getViewPartsToRender_loop s (viewPart # rest) result =
     getViewPartsToRender_loop s rest
       (if shouldRender s viewPart then result @ [viewPart] else result)"

definition getViewPartsToRender :: "'z view \<Rightarrow> nat list" where
  "getViewPartsToRender s = getViewPartsToRender_loop s (viewParts s) []"

fun prepareLoop :: "RenderingContext \<Rightarrow> nat list \<Rightarrow> 'z view \<Rightarrow> 'z view \<times> exn option" where
  "prepareLoop ctx [] s = (s, None)"
| "prepareLoop ctx (viewPart # rest) s =
     andThen (prepareRender viewPart ctx s) (prepareLoop ctx rest) id"

fun renderLoop :: "RenderingContext \<Rightarrow> nat list \<Rightarrow> 'z view \<Rightarrow> 'z view \<times> exn option" where
  "renderLoop ctx [] s = (s, None)"
| "renderLoop ctx (viewPart # rest) s =
     andThen (viewPart_render viewPart ctx s)
       (\<lambda>s1. renderLoop ctx rest (onDidRender viewPart s1)) id"

text \<open>
  The block \<open>if (this.viewLines.shouldRender()) { ... }\<close>: it renders the text and then
  assigns the local variable \<open>viewPartsToRender\<close> again.
\<close>

definition renderViewLines ::
  "ViewportData \<Rightarrow> nat list \<Rightarrow> 'z view \<Rightarrow> (nat list \<times> 'z view) \<times> exn option" where
  "renderViewLines vd viewPartsToRender s =
     (if viewLines_shouldRender s
      then andThen (renderText vd s)
             (\<lambda>s1. let s2 = viewLines_onDidRender s1 in ((getViewPartsToRender s2, s2), None))
             (\<lambda>s1. (viewPartsToRender, s1))
      else ((viewPartsToRender, s), None))"

definition newViewportData :: "'z view \<Rightarrow> ViewportData" where
  "newViewportData s =
     \<lparr>vd_selections = cursorViewSelections s,
      vd_partialData = linesViewportData s,
      vd_whitespaceViewportData = whitespaceViewportData s\<rparr>"

definition actualRender :: "'z view \<Rightarrow> 'z view \<times> exn option" where
  "actualRender s0 =
     (let s = logEvent ActualRender s0 in
      if \<not> inDOM s then (s, None)
      else
        let viewPartsToRender = getViewPartsToRender s in
        if \<not> viewLines_shouldRender s \<and> viewPartsToRender = [] then (s, None)
        else
          let partialViewportData = linesViewportData s;
              s = logEvent (SetViewport (vp_startLineNumber partialViewportData)
                              (vp_endLineNumber partialViewportData)
                              (vp_centeredLineNumber partialViewportData)) s;
              viewportData = newViewportData s;
              s = logEvent (NewViewportData viewportData) s
          in
            andThen (if shouldRender s (contentWidgets s)
                     then onBeforeRender viewportData s else (s, None))
              (\<lambda>s. andThen (renderViewLines viewportData viewPartsToRender s)
                 (\<lambda>(viewPartsToRender, s).
                    let renderingContext = RenderingContext viewportData;
                        s = logEvent (NewRenderingContext renderingContext) s
                    in andThen (prepareLoop renderingContext viewPartsToRender s)
                         (renderLoop renderingContext viewPartsToRender) id)
                 snd)
              id)"

definition renderNow :: "'z view \<Rightarrow> 'z view" where
  "renderNow s = snd (safeInvokeNoArg (\<lambda>(u, s). case actualRender s of (s', r) \<Rightarrow> ((u, s'), r)) ((), s))"

definition flushAccumulatedAndRenderNow :: "'z view \<Rightarrow> 'z view" where
  "flushAccumulatedAndRenderNow s = renderNow s"

definition onRenderScheduled :: "'z view \<Rightarrow> 'z view" where
  "onRenderScheduled s = flushAccumulatedAndRenderNow (s\<lparr>renderAnimationFrame := None\<rparr>)"

text \<open>
  The host fires: it takes the callbacks queued so far off its queue and invokes each
  once, in the order they were scheduled.
\<close>

definition hostFire :: "'z view \<Rightarrow> 'z view" where
  "hostFire s = fold (\<lambda>h. onRenderScheduled) (hostQueue s) (s\<lparr>hostQueue := []\<rparr>)"

text \<open>\<open>View.render(now, everything)\<close>.\<close>

definition View_render :: "bool \<Rightarrow> bool \<Rightarrow> 'z view \<Rightarrow> 'z view" where
  "View_render now everything s =
     (let s1 = (if everything
                then fold forceShouldRender (viewParts s) (viewLines_forceShouldRender s)
                else s)
      in if now then flushAccumulatedAndRenderNow s1 else scheduleRender s1)"

subsection \<open>\<open>View.change\<close>\<close>












text \<open>The number of render passes started so far: the invocations of \<open>_actualRender\<close>.\<close>

definition passes :: "'z view \<Rightarrow> nat" where
  "passes s = length (filter (\<lambda>e. e = ActualRender) (trace s))"

subsection \<open>Notions used to state and prove the properties of the view\<close>

text \<open>A step that changes nothing but the view parts, the view lines and the trace.\<close>

definition renders_only :: "'z view \<Rightarrow> 'z view \<Rightarrow> bool" where
  "renders_only s s' \<longleftrightarrow>
     s' = s\<lparr>partStore := partStore s', viewLines := viewLines s', trace := trace s'\<rparr>"

text \<open>
  The elements of a list a loop calls before it stops: all of them up to and including the
  first one whose call throws; and the exception the loop ends with.
\<close>

fun upToThrow :: "('a \<Rightarrow> exn option) \<Rightarrow> 'a list \<Rightarrow> 'a list" where
  "upToThrow thr [] = []"
| "upToThrow thr (a # as) = a # (if thr a = None then upToThrow thr as else [])"

fun firstThrow :: "('a \<Rightarrow> exn option) \<Rightarrow> 'a list \<Rightarrow> exn option" where
  "firstThrow thr [] = None"
| "firstThrow thr (a # as) = (case thr a of Some e \<Rightarrow> Some e | None \<Rightarrow> firstThrow thr as)"

text \<open>Whether \<open>prepareRender\<close>, and \<open>render\<close>, of the part at an address throws.\<close>

definition prepare_thr :: "'z view \<Rightarrow> nat \<Rightarrow> exn option" where
  "prepare_thr s a = prepareRender_throws (partStore s a)"

definition render_thr :: "'z view \<Rightarrow> nat \<Rightarrow> exn option" where
  "render_thr s a = render_throws (partStore s a)"

text \<open>The calls of the second loop of a pass: \<open>render\<close>, then \<open>onDidRender\<close> if it returned.\<close>

definition renderEvents :: "RenderingContext \<Rightarrow> (nat \<Rightarrow> exn option) \<Rightarrow> nat list \<Rightarrow> event list" where
  "renderEvents ctx thr ps =
     concat (map (\<lambda>a. if thr a = None then [Render a ctx, OnDidRender a] else [Render a ctx])
               (upToThrow thr ps))"

text \<open>
  The parts a pass works on: those that report \<open>shouldRender\<close> at its last collection,
  which are the parts dirty when the pass starts and, when the view lines are rendered,
  the parts their scroll events mark dirty.
\<close>

definition passDirtyParts :: "'z view \<Rightarrow> nat list" where
  "passDirtyParts s =
     filter (\<lambda>a. shouldRender s a \<or>
                 (viewLines_shouldRender s \<and> a \<in> set (renderText_scrolls (viewLines s))))
       (viewParts s)"

text \<open>The calls a pass makes, stage by stage, and the exception it ends with.\<close>

definition viewLinesEvents :: "ViewportData \<Rightarrow> 'z view \<Rightarrow> event list" where
  "viewLinesEvents vd s =
     (if viewLines_shouldRender s
      then RenderText vd # (if renderText_throws (viewLines s) = None then [ViewLinesOnDidRender] else [])
      else [])"

definition partsEvents :: "RenderingContext \<Rightarrow> 'z view \<Rightarrow> nat list \<Rightarrow> event list" where
  "partsEvents ctx s ps =
     NewRenderingContext ctx # map (\<lambda>a. PrepareRender a ctx) (upToThrow (prepare_thr s) ps) @
     (if firstThrow (prepare_thr s) ps = None then renderEvents ctx (render_thr s) ps else [])"

text \<open>The two guards at the head of \<open>_actualRender\<close>: not in the DOM, or nothing to render.\<close>

definition passCutShort :: "'z view \<Rightarrow> bool" where
  "passCutShort s \<longleftrightarrow>
     \<not> inDOM s \<or> (\<not> viewLines_shouldRender s \<and> filter (shouldRender s) (viewParts s) = [])"

definition passEvents :: "'z view \<Rightarrow> event list" where
  "passEvents s =
     (if passCutShort s then [ActualRender]
      else
        [ActualRender,
         SetViewport (vp_startLineNumber (linesViewportData s)) (vp_endLineNumber (linesViewportData s))
           (vp_centeredLineNumber (linesViewportData s)),
         NewViewportData (newViewportData s)] @
        (if shouldRender s (contentWidgets s) then [OnBeforeRender (newViewportData s)] else []) @
        (if shouldRender s (contentWidgets s) \<and> onBeforeRender_throws s \<noteq> None then []
         else viewLinesEvents (newViewportData s) s @
           (if viewLines_shouldRender s \<and> renderText_throws (viewLines s) \<noteq> None then []
            else partsEvents (RenderingContext (newViewportData s)) s (passDirtyParts s))))"

definition passThrow :: "'z view \<Rightarrow> exn option" where
  "passThrow s =
     (if passCutShort s then None
      else if shouldRender s (contentWidgets s) \<and> onBeforeRender_throws s \<noteq> None
        then onBeforeRender_throws s
      else if viewLines_shouldRender s \<and> renderText_throws (viewLines s) \<noteq> None
        then renderText_throws (viewLines s)
      else if firstThrow (prepare_thr s) (passDirtyParts s) \<noteq> None
        then firstThrow (prepare_thr s) (passDirtyParts s)
      else firstThrow (render_thr s) (passDirtyParts s))"

text \<open>The last two stages of \<open>_actualRender\<close>, named.\<close>

definition partsStage :: "ViewportData \<Rightarrow> nat list \<Rightarrow> 'z view \<Rightarrow> 'z view \<times> exn option" where
  "partsStage vd ps s =
     andThen (prepareLoop (RenderingContext vd) ps (logEvent (NewRenderingContext (RenderingContext vd)) s))
       (renderLoop (RenderingContext vd) ps) id"

definition linesStage :: "ViewportData \<Rightarrow> nat list \<Rightarrow> 'z view \<Rightarrow> 'z view \<times> exn option" where
  "linesStage vd ps0 s = andThen (renderViewLines vd ps0 s) (\<lambda>(ps, s). partsStage vd ps s) snd"

text \<open>
  The scheduler's invariant: the host holds a callback of this view exactly when
  \<open>_renderAnimationFrame\<close> holds its handle.
\<close>

definition scheduler_inv :: "'z view \<Rightarrow> bool" where
  "scheduler_inv s \<longleftrightarrow>
     hostQueue s = (case renderAnimationFrame s of None \<Rightarrow> [] | Some h \<Rightarrow> [h])"

text \<open>The calls recorded between two states, and the calls of one render pass.\<close>

definition eventsSince :: "'z view \<Rightarrow> 'z view \<Rightarrow> event list" where
  "eventsSince s s' = drop (length (trace s)) (trace s')"

definition passTrace :: "'z view \<Rightarrow> event list" where
  "passTrace s = eventsSince s (renderNow s)"

text \<open>
  The parts on which \<open>render\<close> (commit), and \<open>prepareRender\<close> (prepare), was invoked, in
  the order of the calls.
\<close>

fun commitsOf :: "event list \<Rightarrow> nat list" where
  "commitsOf [] = []"
| "commitsOf (Render a ctx # es) = a # commitsOf es"
| "commitsOf (e # es) = commitsOf es"

fun preparesOf :: "event list \<Rightarrow> nat list" where
  "preparesOf [] = []"
| "preparesOf (PrepareRender a ctx # es) = a # preparesOf es"
| "preparesOf (e # es) = preparesOf es"

fun isCommit :: "event \<Rightarrow> bool" where
  "isCommit (Render a ctx) = True"
| "isCommit e = False"

fun isPrepare :: "event \<Rightarrow> bool" where
  "isPrepare (PrepareRender a ctx) = True"
| "isPrepare e = False"

text \<open>The call recorded by an event is one that throws the exception \<open>e\<close>.\<close>

fun callThrows :: "'z view \<Rightarrow> event \<Rightarrow> exn \<Rightarrow> bool" where
  "callThrows s (OnBeforeRender vd) e = (onBeforeRender_throws s = Some e)"
| "callThrows s (RenderText vd) e = (renderText_throws (viewLines s) = Some e)"
| "callThrows s (PrepareRender a ctx) e = (prepareRender_throws (partStore s a) = Some e)"
| "callThrows s (Render a ctx) e = (render_throws (partStore s a) = Some e)"
| "callThrows s ev e = False"

text \<open>The viewport data a call was given, if it was given one.\<close>

fun viewportOf :: "event \<Rightarrow> ViewportData option" where
  "viewportOf (NewViewportData vd) = Some vd"
| "viewportOf (OnBeforeRender vd) = Some vd"
| "viewportOf (RenderText vd) = Some vd"
| "viewportOf (NewRenderingContext (RenderingContext vd)) = Some vd"
| "viewportOf (PrepareRender a (RenderingContext vd)) = Some vd"
| "viewportOf (Render a (RenderingContext vd)) = Some vd"
| "viewportOf e = None"

fun constructsViewportData :: "event \<Rightarrow> bool" where
  "constructsViewportData (NewViewportData vd) = True"
| "constructsViewportData e = False"

text \<open>A step that marks no part dirty and changes no part's behaviour.\<close>

definition settles :: "'z view \<Rightarrow> 'z view \<Rightarrow> bool" where
  "settles s s' \<longleftrightarrow>
     (\<forall>a. shouldRender s' a \<longrightarrow> shouldRender s a) \<and>
     prepare_thr s' = prepare_thr s \<and> render_thr s' = render_thr s \<and>
     (viewLines_shouldRender s' \<longrightarrow> viewLines_shouldRender s)"

text \<open>The first half of \<open>View.render\<close> when \<open>everything\<close> is true.\<close>

definition forceAll :: "'z view \<Rightarrow> 'z view" where
  "forceAll s = fold forceShouldRender (viewParts s) (viewLines_forceShouldRender s)"

subsection \<open>Example states\<close>

text \<open>
  A view as the constructor has it after \<open>this._renderAnimationFrame = null\<close> and
  \<open>this.viewParts = []\<close>: nothing scheduled, no part pushed yet, every collaborator clean
  and well-behaved, the DOM node attached. \<open>pushViewPart\<close> is \<open>this.viewParts.push(part)\<close>.
\<close>

definition freshView :: "'z ViewZones \<Rightarrow> 'z view" where
  "freshView vz =
     \<lparr>renderAnimationFrame = None,
      viewParts = [],
      partStore = (\<lambda>a. \<lparr>shouldRender_flag = False, prepareRender_throws = None, render_throws = None\<rparr>),
      viewLines = \<lparr>vl_shouldRender_flag = False, renderText_throws = None, renderText_scrolls = []\<rparr>,
      contentWidgets = 0,
      onBeforeRender_throws = None,
      viewZones = vz,
      inDOM = True,
      cursorViewSelections = [],
      linesViewportData = \<lparr>vp_startLineNumber = 1, vp_endLineNumber = 1, vp_centeredLineNumber = 1\<rparr>,
      whitespaceViewportData = [],
      hostQueue = [],
      nextHandle = 0,
      unexpectedErrors = [],
      trace = []\<rparr>"

definition pushViewPart :: "nat \<Rightarrow> 'z view \<Rightarrow> 'z view" where
  "pushViewPart a s = s\<lparr>viewParts := viewParts s @ [a]\<rparr>"

text \<open>View zones that hand out the ids 1, 2, ... and report every removal and layout as a change.\<close>

definition countingZones :: "nat ViewZones" where
  "countingZones =
     \<lparr>zonesState = 0,
      vz_addZone = (\<lambda>z zone. (Suc z, Inr (Suc z))),
      vz_removeZone = (\<lambda>z i. (z, Inr True)),
      vz_layoutZone = (\<lambda>z i. (z, Inr True))\<rparr>"

text \<open>
  Three parts A, B and C at the addresses 2, 3 and 4, pushed in this order, all clean; part
  C is the content widgets. Then: only B dirty; every part and the view lines dirty;
  the same with a \<open>render\<close> of B that throws; the view detached from the DOM; and a
  fresh view on which a render has been requested.
\<close>

definition exampleABC :: "nat view" where
  "exampleABC =
     (pushViewPart 4 (pushViewPart 3 (pushViewPart 2 (freshView countingZones))))\<lparr>contentWidgets := 4\<rparr>"

definition onlyB :: "nat view" where
  "onlyB = forceShouldRender 3 exampleABC"

definition failingB :: "nat view" where
  "failingB =
     (forceAll exampleABC)\<lparr>partStore := (partStore (forceAll exampleABC))
        (3 := \<lparr>shouldRender_flag = True, prepareRender_throws = None, render_throws = Some 42\<rparr>)\<rparr>"

definition allDirty :: "nat view" where
  "allDirty = forceAll exampleABC"

definition detachedB :: "nat view" where
  "detachedB = onlyB\<lparr>inDOM := False\<rparr>"

definition detachedABC :: "nat view" where
  "detachedABC = exampleABC\<lparr>inDOM := False\<rparr>"

definition pendingView :: "nat view" where
  "pendingView = scheduleRender (freshView countingZones)"

subsection \<open>Notions used to state the property of \<open>View.change\<close>\<close>








section \<open>Markers: the key of a marker (markers.ts)\<close>

text \<open>
  A JavaScript string is a sequence of UTF-16 code units. \<open>lit\<close> makes one from an ASCII
  literal.
\<close>

type_synonym jsstring = "16 word list"

definition lit :: "string \<Rightarrow> jsstring" where
  "lit s = map (\<lambda>c. of_nat (of_char c)) s"

text \<open>
  A JavaScript number is an IEEE 754 double: NaN, one of the two infinities, the negative
  zero, or a finite number, given by its value (\<open>Finite 0\<close> is the positive zero). The value
  of a double is a rational; which rationals are values of doubles plays no part here.
\<close>

datatype jsnumber = NaN | PosInfinity | NegInfinity | NegZero | Finite rat

text \<open>
  \<open>Number.prototype.toString()\<close> is \<open>Number::toString\<close> of ECMAScript with the radix 10. For
  a finite number above zero, its step 5 takes integers \<open>n\<close>, \<open>k\<close> and \<open>s\<close> with \<open>k \<ge> 1\<close> and
  \<open>10\<^sup>k\<^sup>-\<^sup>1 \<le> s < 10\<^sup>k\<close> such that the real \<open>s \<times> 10\<^sup>n\<^sup>-\<^sup>k\<close> rounds to the number and \<open>k\<close> is as small
  as possible, and leaves the last digit of \<open>s\<close> to the engine: the pair of \<open>s\<close> and \<open>n\<close> that
  the engine takes is the parameter \<open>shortest\<close>, and \<open>k\<close> is the number of digits of \<open>s\<close>.
  \<open>formatDigits\<close> is the rest of the algorithm: for \<open>n\<close> from \<open>-5\<close> to \<open>21\<close> the digits of \<open>s\<close>
  with zeros after them, with a decimal point among them, or after \<open>0.\<close> and zeros; for
  any other \<open>n\<close> the first digit, the other digits after a decimal point, and the exponent
  \<open>n - 1\<close> with its sign.
\<close>

definition digit :: "nat \<Rightarrow> 16 word" where
  "digit d = of_nat (48 + d)"

function digits :: "nat \<Rightarrow> jsstring" where
  "digits n = (if n < 10 then [digit n] else digits (n div 10) @ [digit (n mod 10)])"
  by pat_completeness auto
termination
  by (relation "measure (\<lambda>n. n)") auto

definition formatDigits :: "nat \<Rightarrow> int \<Rightarrow> jsstring" where
  "formatDigits s n =
     (let ds = digits s; k = int (length ds) in
      if - 5 \<le> n \<and> n \<le> 21 then
        (if k \<le> n then ds @ replicate (nat (n - k)) 0x30
         else if 0 < n then take (nat n) ds @ [0x2E] @ drop (nat n) ds
         else [0x30, 0x2E] @ replicate (nat (- n)) 0x30 @ ds)
      else
        (let exponentSign = (if n < 0 then 0x2D else 0x2B);
             e = digits (nat \<bar>n - 1\<bar>)
         in if k = 1 then ds @ [0x65, exponentSign] @ e
            else [hd ds, 0x2E] @ tl ds @ [0x65, exponentSign] @ e))"

definition Number_toString :: "(rat \<Rightarrow> nat \<times> int) \<Rightarrow> jsnumber \<Rightarrow> jsstring" where
  "Number_toString shortest x =
     (case x of
        NaN \<Rightarrow> lit ''NaN''
      | NegZero \<Rightarrow> lit ''0''
      | PosInfinity \<Rightarrow> lit ''Infinity''
      | NegInfinity \<Rightarrow> 0x2D # lit ''Infinity''
      | Finite q \<Rightarrow>
          if q = 0 then lit ''0''
          else if q < 0 then 0x2D # (case shortest (- q) of (s, n) \<Rightarrow> formatDigits s n)
          else (case shortest q of (s, n) \<Rightarrow> formatDigits s n))"

text \<open>
  \<open>String.prototype.replace\<close> with a one-character string as the pattern replaces the first
  occurrence of the character. \<open>Array.prototype.join\<close> puts the separator between the
  elements.
\<close>

fun String_replace :: "16 word \<Rightarrow> jsstring \<Rightarrow> jsstring \<Rightarrow> jsstring" where
  "String_replace c rep [] = []"
| "String_replace c rep (x # xs) = (if x = c then rep @ xs else x # String_replace c rep xs)"

fun Array_join :: "jsstring \<Rightarrow> jsstring list \<Rightarrow> jsstring" where
  "Array_join sep [] = []"
| "Array_join sep [x] = x"
| "Array_join sep (x # y # ys) = x @ sep @ Array_join sep (y # ys)"

text \<open>
  The enum \<open>MarkerSeverity\<close> and its display strings. \<open>localize\<close> (../../../nls) is not
  among the sources: it is a parameter, a function of the key and the default message.
  \<open>toString\<close> is \<open>_displayStrings[a] || ''\<close>; no string is stored for \<open>Hint\<close>.
\<close>

datatype MarkerSeverity = Hint | Info | Warning | Error

definition displayStrings :: "(string \<Rightarrow> jsstring \<Rightarrow> jsstring) \<Rightarrow> MarkerSeverity \<Rightarrow> jsstring option" where
  "displayStrings localize a =
     (case a of
        Error \<Rightarrow> Some (localize ''sev.error'' (lit ''Error''))
      | Warning \<Rightarrow> Some (localize ''sev.warning'' (lit ''Warning''))
      | Info \<Rightarrow> Some (localize ''sev.info'' (lit ''Info''))
      | Hint \<Rightarrow> None)"

definition MarkerSeverity_toString :: "(string \<Rightarrow> jsstring \<Rightarrow> jsstring) \<Rightarrow> MarkerSeverity \<Rightarrow> jsstring" where
  "MarkerSeverity_toString localize a =
     (case displayStrings localize a of
        Some s \<Rightarrow> if s \<noteq> [] then s else []
      | None \<Rightarrow> [])"

text \<open>
  The interface \<open>IMarkerData\<close>. An optional field is an option, and so is a field that
  \<open>makeKey\<close> compares with \<open>undefined\<close> and \<open>null\<close>; the resource of a related information is a
  URI, kept as a string.
\<close>

record IRelatedInformation =
  ri_resource :: jsstring
  ri_message :: jsstring
  ri_startLineNumber :: jsnumber
  ri_startColumn :: jsnumber
  ri_endLineNumber :: jsnumber
  ri_endColumn :: jsnumber

record IMarkerData =
  code :: "jsstring option"
  severity :: "MarkerSeverity option"
  message :: jsstring
  source :: "jsstring option"
  startLineNumber :: "jsnumber option"
  startColumn :: "jsnumber option"
  endLineNumber :: "jsnumber option"
  endColumn :: "jsnumber option"
  relatedInformation :: "IRelatedInformation list option"
  tags :: "nat list option"

text \<open>
  \<open>IMarkerData.makeKey\<close>. The separator is the broken bar, U+00A6. Each \<open>replace\<close> has
  the bar as its pattern and, as its replacement, a string literal written as a backslash
  followed by the bar; in a JavaScript string literal a backslash before a character that
  has no escape meaning is dropped, so the replacement is the bar itself.
\<close>

definition brokenBar :: "16 word" where
  "brokenBar = 0xA6"

definition emptyString :: jsstring where
  "emptyString = []"

definition makeKey ::
  "(string \<Rightarrow> jsstring \<Rightarrow> jsstring) \<Rightarrow> (rat \<Rightarrow> nat \<times> int) \<Rightarrow> IMarkerData \<Rightarrow> jsstring" where
  "makeKey localize shortest markerData =
     (let result = [emptyString];
          result = result @
            [case source markerData of
               Some s \<Rightarrow> if s \<noteq> [] then String_replace brokenBar [brokenBar] s else emptyString
             | None \<Rightarrow> emptyString];
          result = result @
            [case code markerData of
               Some s \<Rightarrow> if s \<noteq> [] then String_replace brokenBar [brokenBar] s else emptyString
             | None \<Rightarrow> emptyString];
          result = result @
            [case severity markerData of
               Some a \<Rightarrow> MarkerSeverity_toString localize a
             | None \<Rightarrow> emptyString];
          result = result @
            [if message markerData \<noteq> []
             then String_replace brokenBar [brokenBar] (message markerData) else emptyString];
          result = result @
            [case startLineNumber markerData of
               Some n \<Rightarrow> Number_toString shortest n | None \<Rightarrow> emptyString];
          result = result @
            [case startColumn markerData of
               Some n \<Rightarrow> Number_toString shortest n | None \<Rightarrow> emptyString];
          result = result @
            [case endLineNumber markerData of
               Some n \<Rightarrow> Number_toString shortest n | None \<Rightarrow> emptyString];
          result = result @
            [case endColumn markerData of
               Some n \<Rightarrow> Number_toString shortest n | None \<Rightarrow> emptyString];
          result = result @ [emptyString]
      in Array_join [brokenBar] result)"

subsection \<open>Notions used to state the property of \<open>makeKey\<close>\<close>

text \<open>
  A safe string is non-empty and has no broken bar; a safe marker has safe \<open>source\<close>, \<open>code\<close>
  and \<open>message\<close>, one of the three named severities, and its four position numbers. The
  display strings it needs must stay apart and free of the bar under localization; they do
  when nothing is translated.
\<close>

definition safeString :: "jsstring \<Rightarrow> bool" where
  "safeString s \<longleftrightarrow> s \<noteq> [] \<and> brokenBar \<notin> set s"

definition safeMarker :: "IMarkerData \<Rightarrow> bool" where
  "safeMarker md \<longleftrightarrow>
     (case source md of Some s \<Rightarrow> safeString s | None \<Rightarrow> False) \<and>
     (case code md of Some s \<Rightarrow> safeString s | None \<Rightarrow> False) \<and>
     safeString (message md) \<and>
     (severity md = Some Error \<or> severity md = Some Warning \<or> severity md = Some Info) \<and>
     startLineNumber md \<noteq> None \<and> startColumn md \<noteq> None \<and>
     endLineNumber md \<noteq> None \<and> endColumn md \<noteq> None"

definition severityNamesOk :: "(string \<Rightarrow> jsstring \<Rightarrow> jsstring) \<Rightarrow> bool" where
  "severityNamesOk localize \<longleftrightarrow>
     distinct [localize ''sev.error'' (lit ''Error''), localize ''sev.warning'' (lit ''Warning''),
               localize ''sev.info'' (lit ''Info'')] \<and>
     brokenBar \<notin> set (localize ''sev.error'' (lit ''Error'')) \<and>
     brokenBar \<notin> set (localize ''sev.warning'' (lit ''Warning'')) \<and>
     brokenBar \<notin> set (localize ''sev.info'' (lit ''Info''))"

definition untranslated :: "string \<Rightarrow> jsstring \<Rightarrow> jsstring" where
  "untranslated key msg = msg"

text \<open>
  Two numbers agree when they are the same number, NaN being the same as NaN and a zero
  the same as a zero whatever its sign: the comparison \<open>SameValueZero\<close> of ECMAScript, that of
  \<open>Array.prototype.includes\<close> and of the keys of a \<open>Map\<close>. It differs from \<open>===\<close> on NaN alone.
  Two markers have the same key fields when they agree on the eight fields the key is made
  of.
\<close>

definition isZero :: "jsnumber \<Rightarrow> bool" where
  "isZero x \<longleftrightarrow> x = NegZero \<or> x = Finite 0"

definition SameValueZero :: "jsnumber \<Rightarrow> jsnumber \<Rightarrow> bool" where
  "SameValueZero x y \<longleftrightarrow> x = y \<or> (isZero x \<and> isZero y)"

definition sameKeyFields :: "IMarkerData \<Rightarrow> IMarkerData \<Rightarrow> bool" where
  "sameKeyFields a b \<longleftrightarrow>
     source a = source b \<and> code a = code b \<and> severity a = severity b \<and> message a = message b \<and>
     rel_option SameValueZero (startLineNumber a) (startLineNumber b) \<and>
     rel_option SameValueZero (startColumn a) (startColumn b) \<and>
     rel_option SameValueZero (endLineNumber a) (endLineNumber b) \<and>
     rel_option SameValueZero (endColumn a) (endColumn b)"

text \<open>
  What step 5 of \<open>Number::toString\<close> asks of the digits the engine takes for a number other
  than NaN, the zeros and the infinities: \<open>s\<close> is above zero, and the real that \<open>s\<close> and \<open>n\<close>
  denote, \<open>s \<times> 10\<^sup>n\<^sup>-\<^sup>k\<close>, rounds to the size of the number. The rounding of a real to a
  number, round to nearest with ties to even in IEEE 754, is the parameter \<open>rounded\<close>: no
  fact about it is needed. \<open>positionsOk\<close> asks this of the four position numbers of a marker.
\<close>

definition denoted :: "nat \<Rightarrow> int \<Rightarrow> rat" where
  "denoted s n = of_nat s * 10 powi (n - int (length (digits s)))"

definition digitsOk :: "(rat \<Rightarrow> jsnumber) \<Rightarrow> (rat \<Rightarrow> nat \<times> int) \<Rightarrow> jsnumber \<Rightarrow> bool" where
  "digitsOk rounded shortest x \<longleftrightarrow>
     (case x of
        Finite q \<Rightarrow>
          q = 0 \<or> (case shortest \<bar>q\<bar> of (s, n) \<Rightarrow> 0 < s \<and> rounded (denoted s n) = Finite \<bar>q\<bar>)
      | _ \<Rightarrow> True)"

definition positionsOk :: "(rat \<Rightarrow> jsnumber) \<Rightarrow> (rat \<Rightarrow> nat \<times> int) \<Rightarrow> IMarkerData \<Rightarrow> bool" where
  "positionsOk rounded shortest md \<longleftrightarrow>
     pred_option (digitsOk rounded shortest) (startLineNumber md) \<and>
     pred_option (digitsOk rounded shortest) (startColumn md) \<and>
     pred_option (digitsOk rounded shortest) (endLineNumber md) \<and>
     pred_option (digitsOk rounded shortest) (endColumn md)"

text \<open>
  The four layouts of \<open>formatDigits\<close>, as the digits and the exponent choose one and as it is
  seen on the string; the digits before the exponent in the fourth layout; and the six kinds
  of strings of \<open>Number_toString\<close>, as the number chooses one and as it is seen on the string.
\<close>

datatype layout = Integral | Decimal | Leading0 | Exponent

definition layoutOf :: "nat \<Rightarrow> int \<Rightarrow> layout" where
  "layoutOf s n =
     (if n < - 5 \<or> 21 < n then Exponent
      else if int (length (digits s)) \<le> n then Integral
      else if 0 < n then Decimal else Leading0)"

definition layoutSeen :: "jsstring \<Rightarrow> layout" where
  "layoutSeen str =
     (if 0x65 \<in> set str then Exponent
      else if 0x2E \<notin> set str then Integral
      else if hd str = 0x30 then Leading0 else Decimal)"

definition significand :: "nat \<Rightarrow> jsstring" where
  "significand s = (if length (digits s) = 1 then digits s else hd (digits s) # 0x2E # tl (digits s))"

datatype kind = IsNaN | IsZero | IsPosInfinity | IsNegInfinity | IsPositive | IsNegative

definition kindOf :: "jsnumber \<Rightarrow> kind" where
  "kindOf x =
     (case x of
        NaN \<Rightarrow> IsNaN
      | NegZero \<Rightarrow> IsZero
      | PosInfinity \<Rightarrow> IsPosInfinity
      | NegInfinity \<Rightarrow> IsNegInfinity
      | Finite q \<Rightarrow> if q = 0 then IsZero else if q < 0 then IsNegative else IsPositive)"

definition kindSeen :: "jsstring \<Rightarrow> kind" where
  "kindSeen str =
     (if str = [0x30] then IsZero
      else if hd str = 0x4E then IsNaN
      else if hd str = 0x49 then IsPosInfinity
      else if hd str = 0x2D then (if hd (tl str) = 0x49 then IsNegInfinity else IsNegative)
      else IsPositive)"

text \<open>The number a string of digits stands for.\<close>

fun valueOf :: "jsstring \<Rightarrow> nat" where
  "valueOf cs = foldl (\<lambda>acc c. 10 * acc + (unat c - 48)) 0 cs"

declare digits.simps [simp del]

text \<open>
  For the examples: the digits of a whole number that JavaScript prints in full, as it does
  every whole number up to \<open>2\<^sup>5\<^sup>3\<close>, are its decimal digits without the zeros at their end,
  and \<open>n\<close> is the number of its decimal digits; and the value of a number rounds to that
  number. The marker is one a TypeScript compiler would report.
\<close>

definition integerDigits :: "rat \<Rightarrow> nat \<times> int" where
  "integerDigits q =
     (let ds = digits (nat \<lfloor>q\<rfloor>)
      in (valueOf (rev (dropWhile (\<lambda>c. c = 0x30) (rev ds))), int (length ds)))"

definition exactly :: "rat \<Rightarrow> jsnumber" where
  "exactly q = Finite q"

definition exampleMarker :: IMarkerData where
  "exampleMarker =
     \<lparr>code = Some (lit ''2304''), severity = Some Error, message = lit ''Cannot find name'',
      source = Some (lit ''ts''), startLineNumber = Some (Finite 1), startColumn = Some (Finite 2),
      endLineNumber = Some (Finite 1), endColumn = Some (Finite 12), relatedInformation = None,
      tags = None\<rparr>"

section \<open>The languages registry (languagesRegistry.ts)\<close>

text \<open>
  The class \<open>LanguageIdentifier\<close> (../modes) has the two fields \<open>language\<close> and \<open>id\<close>, here
  \<open>lid\<close>; a \<open>LanguageId\<close> is a number. The fields of a language extension point carry the
  prefix \<open>lang\<close>, those of a resolved language have the names of the source, but for
  \<open>identifier\<close>, here \<open>languageIdentifier\<close>.
\<close>

record LanguageIdentifier =
  language :: jsstring
  lid :: nat

record ILanguageExtensionPoint =
  lang_id :: jsstring
  lang_extensions :: "jsstring list option"
  lang_filenames :: "jsstring list option"
  lang_filenamePatterns :: "jsstring list option"
  lang_firstLine :: "jsstring option"
  lang_aliases :: "jsstring list option"
  lang_mimetypes :: "jsstring list option"
  lang_configuration :: "jsstring option"

record IResolvedLanguage =
  languageIdentifier :: LanguageIdentifier
  name :: "jsstring option"
  mimetypes :: "jsstring list"
  aliases :: "jsstring list"
  extensions :: "jsstring list"
  filenames :: "jsstring list"
  configurationFiles :: "jsstring list"

text \<open>
  The registry: \<open>_nextLanguageId\<close>, the object \<open>_languages\<close> and the array \<open>_languageIds\<close>,
  which has holes. The three fast-path maps are rebuilt from \<open>_languages\<close> by
  \<open>_registerLanguages\<close> and read by neither \<open>_registerLanguage\<close> nor
  \<open>getLanguageIdentifier\<close>; they are left out.
\<close>

record LanguagesRegistry =
  nextLanguageId :: nat
  languages :: "jsstring \<rightharpoonup> IResolvedLanguage"
  languageIds :: "nat \<rightharpoonup> jsstring"

text \<open>
  \<open>_languages\<close> is a plain object used as a dictionary. \<open>hasOwnProperty.call(obj, key)\<close>
  asks for an own property. The assignment \<open>obj[key] = v\<close> creates one, except for the key
  \<open>__proto__\<close>: that assignment goes to the setter inherited from \<open>Object.prototype\<close>, which
  makes the object \<open>v\<close> the prototype of \<open>obj\<close> and creates no own property. A value is
  falsy when it is \<open>undefined\<close>, \<open>null\<close> or the empty string.
\<close>

definition hasOwnProperty :: "(jsstring \<rightharpoonup> 'v) \<Rightarrow> jsstring \<Rightarrow> bool" where
  "hasOwnProperty obj key \<longleftrightarrow> obj key \<noteq> None"

definition setProperty :: "(jsstring \<rightharpoonup> 'v) \<Rightarrow> jsstring \<Rightarrow> 'v \<Rightarrow> (jsstring \<rightharpoonup> 'v)" where
  "setProperty obj key v = (if key = lit ''__proto__'' then obj else obj(key \<mapsto> v))"

definition falsy :: "jsstring option \<Rightarrow> bool" where
  "falsy v \<longleftrightarrow> v = None \<or> v = Some []"

text \<open>
  \<open>_mergeLanguage\<close>, block by block. The calls of \<open>mime.registerTextMime\<close>, and with them
  the file name patterns and the first-line pattern, act on the mime registry, which is not
  part of this object; they are left out. In the block on aliases, \<open>langAliases\<close> is
  \<open>[null]\<close> when \<open>lang.aliases\<close> is an empty array.
\<close>

definition mergeMimetypes :: "IResolvedLanguage \<Rightarrow> ILanguageExtensionPoint \<Rightarrow> IResolvedLanguage" where
  "mergeMimetypes resolvedLanguage lang =
     (case (case lang_mimetypes lang of
              Some (m # ms) \<Rightarrow>
                (Some m, resolvedLanguage\<lparr>mimetypes := mimetypes resolvedLanguage @ m # ms\<rparr>)
            | _ \<Rightarrow> (None, resolvedLanguage)) of
        (primaryMime, resolvedLanguage) \<Rightarrow>
          if falsy primaryMime
          then resolvedLanguage\<lparr>mimetypes := mimetypes resolvedLanguage @ [lit ''text/x-'' @ lang_id lang]\<rparr>
          else resolvedLanguage)"

definition mergeExtensions :: "IResolvedLanguage \<Rightarrow> ILanguageExtensionPoint \<Rightarrow> IResolvedLanguage" where
  "mergeExtensions resolvedLanguage lang =
     (case lang_extensions lang of
        Some es \<Rightarrow> resolvedLanguage\<lparr>extensions := extensions resolvedLanguage @ es\<rparr>
      | None \<Rightarrow> resolvedLanguage)"

definition mergeFilenames :: "IResolvedLanguage \<Rightarrow> ILanguageExtensionPoint \<Rightarrow> IResolvedLanguage" where
  "mergeFilenames resolvedLanguage lang =
     (case lang_filenames lang of
        Some fs \<Rightarrow> resolvedLanguage\<lparr>filenames := filenames resolvedLanguage @ fs\<rparr>
      | None \<Rightarrow> resolvedLanguage)"

definition langAliasesOf :: "ILanguageExtensionPoint \<Rightarrow> jsstring option list option" where
  "langAliasesOf lang =
     (case lang_aliases lang of
        None \<Rightarrow> None
      | Some [] \<Rightarrow> Some [None]
      | Some as \<Rightarrow> Some (map Some as))"

definition mergeAliases :: "IResolvedLanguage \<Rightarrow> ILanguageExtensionPoint \<Rightarrow> IResolvedLanguage" where
  "mergeAliases resolvedLanguage lang =
     (case langAliasesOf lang of
        None \<Rightarrow> resolvedLanguage\<lparr>aliases := aliases resolvedLanguage @ [lang_id lang]\<rparr>
      | Some langAliases \<Rightarrow>
          resolvedLanguage\<lparr>aliases := aliases resolvedLanguage @ [lang_id lang] @
             concat (map (\<lambda>a. if falsy a then [] else [the a]) langAliases)\<rparr>)"

definition mergeName :: "IResolvedLanguage \<Rightarrow> ILanguageExtensionPoint \<Rightarrow> IResolvedLanguage" where
  "mergeName resolvedLanguage lang =
     (let langAliases = langAliasesOf lang;
          containsAliases = (case langAliases of None \<Rightarrow> False | Some las \<Rightarrow> las \<noteq> [])
      in if containsAliases \<and> hd (the langAliases) = None then resolvedLanguage
         else
           let bestName =
                 (if containsAliases \<and> \<not> falsy (hd (the langAliases))
                  then the (hd (the langAliases)) else lang_id lang)
           in if containsAliases \<or> falsy (name resolvedLanguage)
              then resolvedLanguage\<lparr>name := Some bestName\<rparr> else resolvedLanguage)"

definition mergeConfiguration :: "IResolvedLanguage \<Rightarrow> ILanguageExtensionPoint \<Rightarrow> IResolvedLanguage" where
  "mergeConfiguration resolvedLanguage lang =
     (case lang_configuration lang of
        Some c \<Rightarrow> resolvedLanguage\<lparr>configurationFiles := configurationFiles resolvedLanguage @ [c]\<rparr>
      | None \<Rightarrow> resolvedLanguage)"

definition mergeLanguage :: "IResolvedLanguage \<Rightarrow> ILanguageExtensionPoint \<Rightarrow> IResolvedLanguage" where
  "mergeLanguage resolvedLanguage lang =
     mergeConfiguration
       (mergeName
          (mergeAliases
             (mergeFilenames (mergeExtensions (mergeMimetypes resolvedLanguage lang) lang) lang)
             lang)
          lang)
       lang"

text \<open>
  \<open>_registerLanguage\<close>. \<open>_mergeLanguage\<close> changes the resolved language in place: the
  object stored under the language id is the merged one.
\<close>

definition registerLanguage :: "ILanguageExtensionPoint \<Rightarrow> LanguagesRegistry \<Rightarrow> LanguagesRegistry" where
  "registerLanguage lang reg =
     (let langId = lang_id lang in
      if hasOwnProperty (languages reg) langId
      then (case languages reg langId of
              Some resolvedLanguage \<Rightarrow>
                reg\<lparr>languages := (languages reg)(langId \<mapsto> mergeLanguage resolvedLanguage lang)\<rparr>
            | None \<Rightarrow> reg)
      else
        let languageId = nextLanguageId reg;
            reg = reg\<lparr>nextLanguageId := languageId + 1\<rparr>;
            resolvedLanguage =
              \<lparr>languageIdentifier = \<lparr>language = langId, lid = languageId\<rparr>, name = None, mimetypes = [],
               aliases = [], extensions = [], filenames = [], configurationFiles = []\<rparr>;
            reg = reg\<lparr>languageIds := (languageIds reg)(languageId \<mapsto> langId)\<rparr>
        in reg\<lparr>languages := setProperty (languages reg) langId (mergeLanguage resolvedLanguage lang)\<rparr>)"

text \<open>
  \<open>_registerLanguages\<close> as far as it concerns the ids, and the constructor;
  \<open>modesLanguages\<close> is what \<open>ModesRegistry.getLanguages()\<close> returns.
\<close>

definition registerLanguages :: "ILanguageExtensionPoint list \<Rightarrow> LanguagesRegistry \<Rightarrow> LanguagesRegistry" where
  "registerLanguages desc reg = (if desc = [] then reg else fold registerLanguage desc reg)"

definition LanguagesRegistry_constructor :: "bool \<Rightarrow> ILanguageExtensionPoint list \<Rightarrow> LanguagesRegistry" where
  "LanguagesRegistry_constructor useModesRegistry modesLanguages =
     (let this = \<lparr>nextLanguageId = 1, languages = Map.empty, languageIds = Map.empty\<rparr>
      in if useModesRegistry then registerLanguages modesLanguages this else this)"

text \<open>
  \<open>getLanguageIdentifier\<close>, whose argument is a string or a number. \<open>NULL_MODE_ID\<close>
  (../modes/nullMode) and \<open>LanguageId.Null\<close> (../modes) are not among the sources: they are
  parameters. \<open>null\<close> is \<open>None\<close>.
\<close>

datatype modeId = ModeString jsstring | ModeNumber nat

definition getLanguageIdentifier ::
  "jsstring \<Rightarrow> nat \<Rightarrow> LanguagesRegistry \<Rightarrow> modeId \<Rightarrow> LanguageIdentifier option" where
  "getLanguageIdentifier NULL_MODE_ID LanguageId_Null reg m =
     (if m = ModeString NULL_MODE_ID \<or> m = ModeNumber LanguageId_Null
      then Some \<lparr>language = NULL_MODE_ID, lid = LanguageId_Null\<rparr>
      else
        (case (case m of
                 ModeString s \<Rightarrow> Some s
               | ModeNumber n \<Rightarrow> if falsy (languageIds reg n) then None else languageIds reg n) of
           None \<Rightarrow> None
         | Some modeId \<Rightarrow>
             if \<not> hasOwnProperty (languages reg) modeId then None
             else map_option languageIdentifier (languages reg modeId)))"

subsection \<open>Notions used to state the property of the registry\<close>

text \<open>
  The registry's invariant: a resolved language is stored under its own string id, its
  numeric id is at least 1, below \<open>_nextLanguageId\<close>, and leads back to the string id in
  \<open>_languageIds\<close>; and \<open>_languageIds\<close> holds nothing from \<open>_nextLanguageId\<close> on.
\<close>

definition registry_inv :: "LanguagesRegistry \<Rightarrow> bool" where
  "registry_inv reg \<longleftrightarrow>
     1 \<le> nextLanguageId reg \<and>
     (\<forall>k r. languages reg k = Some r \<longrightarrow>
        language (languageIdentifier r) = k \<and> 1 \<le> lid (languageIdentifier r) \<and>
        lid (languageIdentifier r) < nextLanguageId reg \<and>
        languageIds reg (lid (languageIdentifier r)) = Some k) \<and>
     (\<forall>n k. languageIds reg n = Some k \<longrightarrow> n < nextLanguageId reg)"

text \<open>The resolved language \<open>_registerLanguage\<close> creates for an unknown id.\<close>

definition newResolvedLanguage :: "jsstring \<Rightarrow> nat \<Rightarrow> IResolvedLanguage" where
  "newResolvedLanguage langId languageId =
     \<lparr>languageIdentifier = \<lparr>language = langId, lid = languageId\<rparr>, name = None, mimetypes = [],
      aliases = [], extensions = [], filenames = [], configurationFiles = []\<rparr>"

text \<open>A language extension point with nothing but its id, and a registry with no language.\<close>

definition plainLanguage :: "jsstring \<Rightarrow> ILanguageExtensionPoint" where
  "plainLanguage langId =
     \<lparr>lang_id = langId, lang_extensions = None, lang_filenames = None, lang_filenamePatterns = None,
      lang_firstLine = None, lang_aliases = None, lang_mimetypes = None, lang_configuration = None\<rparr>"

definition emptyRegistry :: LanguagesRegistry where
  "emptyRegistry = LanguagesRegistry_constructor False []"

text \<open>Two states in which a render pass reads the same.\<close>

definition sameRenderInputs :: "'z view \<Rightarrow> 'z view \<Rightarrow> bool" where
  "sameRenderInputs s s' \<longleftrightarrow>
     partStore s' = partStore s \<and> viewParts s' = viewParts s \<and> viewLines s' = viewLines s \<and>
     inDOM s' = inDOM s \<and> contentWidgets s' = contentWidgets s \<and>
     onBeforeRender_throws s' = onBeforeRender_throws s \<and>
     cursorViewSelections s' = cursorViewSelections s \<and>
     linesViewportData s' = linesViewportData s \<and>
     whitespaceViewportData s' = whitespaceViewportData s"

section \<open>Lemmas about the render pass\<close>

lemma renders_only_refl: "renders_only s s"
  by (simp add: renders_only_def)

lemma renders_only_trans: "renders_only s s' \<Longrightarrow> renders_only s' s'' \<Longrightarrow> renders_only s s''"
  unfolding renders_only_def
  by (metis (no_types, lifting) view.surjective view.update_convs(3,4,15))

lemma renders_only_logEvent: "renders_only s (logEvent e s)"
  by (simp add: renders_only_def logEvent_def)

lemma renders_only_forceShouldRender: "renders_only s (forceShouldRender a s)"
  by (simp add: renders_only_def forceShouldRender_def)

lemma renders_only_onDidRender: "renders_only s (onDidRender a s)"
  by (simp add: renders_only_def onDidRender_def logEvent_def)

lemma getViewPartsToRender_loop_filter:
  "getViewPartsToRender_loop s ps result = result @ filter (shouldRender s) ps"
  by (induction ps arbitrary: result) auto

lemma getViewPartsToRender_filter:
  "getViewPartsToRender s = filter (shouldRender s) (viewParts s)"
  by (simp add: getViewPartsToRender_def getViewPartsToRender_loop_filter)

lemma prepareLoop_eq0:
  "prepareLoop ctx ps s =
     (s\<lparr>trace := trace s @ map (\<lambda>a. PrepareRender a ctx)
                            (upToThrow (\<lambda>a. prepareRender_throws (partStore s a)) ps)\<rparr>,
      firstThrow (\<lambda>a. prepareRender_throws (partStore s a)) ps)"
proof (induction ps arbitrary: s)
  case Nil
  show ?case by simp
next
  case (Cons a ps)
  show ?case
    by (cases "prepareRender_throws (partStore s a)")
       (simp_all add: andThen_def prepareRender_def logEvent_def Cons.IH)
qed

lemma render_thr_logEvent [simp]: "render_thr (logEvent e s) = render_thr s"
  by (rule ext) (simp add: render_thr_def logEvent_def)

lemma render_thr_onDidRender [simp]: "render_thr (onDidRender a s) = render_thr s"
  by (rule ext) (simp add: render_thr_def onDidRender_def logEvent_def)

lemma render_thr_forceShouldRender [simp]: "render_thr (forceShouldRender a s) = render_thr s"
  by (rule ext) (simp add: render_thr_def forceShouldRender_def)

lemma prepare_thr_logEvent [simp]: "prepare_thr (logEvent e s) = prepare_thr s"
  by (rule ext) (simp add: prepare_thr_def logEvent_def)

lemma prepare_thr_onDidRender [simp]: "prepare_thr (onDidRender a s) = prepare_thr s"
  by (rule ext) (simp add: prepare_thr_def onDidRender_def logEvent_def)

lemma prepare_thr_forceShouldRender [simp]: "prepare_thr (forceShouldRender a s) = prepare_thr s"
  by (rule ext) (simp add: prepare_thr_def forceShouldRender_def)

lemma trace_logEvent [simp]: "trace (logEvent e s) = trace s @ [e]"
  by (simp add: logEvent_def)

lemma trace_onDidRender [simp]: "trace (onDidRender a s) = trace s @ [OnDidRender a]"
  by (simp add: onDidRender_def logEvent_def)

lemma viewPart_render_eq:
  "viewPart_render a ctx s = (logEvent (Render a ctx) s, render_thr s a)"
  by (simp add: viewPart_render_def render_thr_def)

lemma renderLoop_trace:
  "trace (fst (renderLoop ctx ps s)) = trace s @ renderEvents ctx (render_thr s) ps"
proof (induction ps arbitrary: s)
  case Nil
  show ?case by (simp add: renderEvents_def)
next
  case (Cons a ps)
  show ?case
    by (cases "render_thr s a")
       (simp_all add: andThen_def viewPart_render_eq Cons.IH renderEvents_def)
qed

lemma renderLoop_throw:
  "snd (renderLoop ctx ps s) = firstThrow (render_thr s) ps"
proof (induction ps arbitrary: s)
  case Nil
  show ?case by simp
next
  case (Cons a ps)
  show ?case
    by (cases "render_thr s a")
       (simp_all add: andThen_def viewPart_render_eq Cons.IH)
qed

lemma renderLoop_renders_only: "renders_only s (fst (renderLoop ctx ps s))"
proof (induction ps arbitrary: s)
  case Nil
  show ?case by (simp add: renders_only_refl)
next
  case (Cons a ps)
  have 1: "renders_only s (onDidRender a (logEvent (Render a ctx) s))"
    by (rule renders_only_trans [OF renders_only_logEvent renders_only_onDidRender])
  show ?case
    by (cases "render_thr s a")
       (auto simp add: andThen_def viewPart_render_eq renders_only_logEvent
          intro: renders_only_trans [OF 1 Cons.IH])
qed

lemma prepareLoop_eq:
  "prepareLoop ctx ps s =
     (s\<lparr>trace := trace s @ map (\<lambda>a. PrepareRender a ctx) (upToThrow (prepare_thr s) ps)\<rparr>,
      firstThrow (prepare_thr s) ps)"
  using prepareLoop_eq0 [of ctx ps s] unfolding prepare_thr_def .

lemma renders_only_fields:
  assumes "renders_only s s'"
  shows "renderAnimationFrame s' = renderAnimationFrame s"
    and "viewParts s' = viewParts s"
    and "contentWidgets s' = contentWidgets s"
    and "onBeforeRender_throws s' = onBeforeRender_throws s"
    and "viewZones s' = viewZones s"
    and "inDOM s' = inDOM s"
    and "cursorViewSelections s' = cursorViewSelections s"
    and "linesViewportData s' = linesViewportData s"
    and "whitespaceViewportData s' = whitespaceViewportData s"
    and "hostQueue s' = hostQueue s"
    and "nextHandle s' = nextHandle s"
    and "unexpectedErrors s' = unexpectedErrors s"
proof -
  from assms have e: "s' = s\<lparr>partStore := partStore s', viewLines := viewLines s', trace := trace s'\<rparr>"
    by (simp add: renders_only_def)
  show "renderAnimationFrame s' = renderAnimationFrame s" by (subst e) simp
  show "viewParts s' = viewParts s" by (subst e) simp
  show "contentWidgets s' = contentWidgets s" by (subst e) simp
  show "onBeforeRender_throws s' = onBeforeRender_throws s" by (subst e) simp
  show "viewZones s' = viewZones s" by (subst e) simp
  show "inDOM s' = inDOM s" by (subst e) simp
  show "cursorViewSelections s' = cursorViewSelections s" by (subst e) simp
  show "linesViewportData s' = linesViewportData s" by (subst e) simp
  show "whitespaceViewportData s' = whitespaceViewportData s" by (subst e) simp
  show "hostQueue s' = hostQueue s" by (subst e) simp
  show "nextHandle s' = nextHandle s" by (subst e) simp
  show "unexpectedErrors s' = unexpectedErrors s" by (subst e) simp
qed

lemma fold_forceShouldRender_renders_only: "renders_only s (fold forceShouldRender ds s)"
proof (induction ds arbitrary: s)
  case Nil
  show ?case by (simp add: renders_only_refl)
next
  case (Cons d ds)
  show ?case
    using renders_only_trans [OF renders_only_forceShouldRender Cons.IH] by simp
qed

lemma fold_forceShouldRender_trace [simp]: "trace (fold forceShouldRender ds s) = trace s"
  by (induction ds arbitrary: s) (simp_all add: forceShouldRender_def)

lemma fold_forceShouldRender_viewLines [simp]: "viewLines (fold forceShouldRender ds s) = viewLines s"
  by (induction ds arbitrary: s) (simp_all add: forceShouldRender_def)

lemma fold_forceShouldRender_viewParts [simp]: "viewParts (fold forceShouldRender ds s) = viewParts s"
  by (induction ds arbitrary: s) (simp_all add: forceShouldRender_def)

lemma fold_forceShouldRender_prepare_thr [simp]:
  "prepare_thr (fold forceShouldRender ds s) = prepare_thr s"
  by (induction ds arbitrary: s) simp_all

lemma fold_forceShouldRender_render_thr [simp]:
  "render_thr (fold forceShouldRender ds s) = render_thr s"
  by (induction ds arbitrary: s) simp_all

lemma shouldRender_forceShouldRender:
  "shouldRender (forceShouldRender d s) a = (a = d \<or> shouldRender s a)"
  by (simp add: shouldRender_def forceShouldRender_def)

lemma shouldRender_fold_forceShouldRender:
  "shouldRender (fold forceShouldRender ds s) a = (a \<in> set ds \<or> shouldRender s a)"
  by (induction ds arbitrary: s) (auto simp add: shouldRender_forceShouldRender)

lemma shouldRender_logEvent [simp]: "shouldRender (logEvent e s) = shouldRender s"
  by (rule ext) (simp add: shouldRender_def logEvent_def)

lemma renderViewLines_eq:
  "renderViewLines vd ps s =
     (if viewLines_shouldRender s
      then (case renderText_throws (viewLines s) of
              Some e \<Rightarrow> ((ps, logEvent (RenderText vd) s), Some e)
            | None \<Rightarrow>
                ((passDirtyParts s,
                  viewLines_onDidRender
                    (fold forceShouldRender (renderText_scrolls (viewLines s)) (logEvent (RenderText vd) s))),
                 None))
      else ((ps, s), None))"
  by (auto simp add: renderViewLines_def renderText_def andThen_def Let_def passDirtyParts_def
        getViewPartsToRender_filter viewLines_onDidRender_def shouldRender_def
        shouldRender_fold_forceShouldRender [unfolded shouldRender_def] logEvent_def
        split: option.splits intro!: filter_cong)

lemma shouldRender_viewLines_onDidRender [simp]:
  "shouldRender (viewLines_onDidRender s) = shouldRender s"
  by (rule ext) (simp add: shouldRender_def viewLines_onDidRender_def logEvent_def)

lemma prepare_thr_viewLines_onDidRender [simp]:
  "prepare_thr (viewLines_onDidRender s) = prepare_thr s"
  by (rule ext) (simp add: prepare_thr_def viewLines_onDidRender_def logEvent_def)

lemma render_thr_viewLines_onDidRender [simp]:
  "render_thr (viewLines_onDidRender s) = render_thr s"
  by (rule ext) (simp add: render_thr_def viewLines_onDidRender_def logEvent_def)

lemma trace_viewLines_onDidRender [simp]:
  "trace (viewLines_onDidRender s) = trace s @ [ViewLinesOnDidRender]"
  by (simp add: viewLines_onDidRender_def logEvent_def)

lemma renders_only_viewLines_onDidRender: "renders_only s (viewLines_onDidRender s)"
  by (simp add: renders_only_def viewLines_onDidRender_def logEvent_def)

lemma logEvent_fields [simp]:
  "inDOM (logEvent e s) = inDOM s"
  "viewParts (logEvent e s) = viewParts s"
  "viewLines (logEvent e s) = viewLines s"
  "contentWidgets (logEvent e s) = contentWidgets s"
  "onBeforeRender_throws (logEvent e s) = onBeforeRender_throws s"
  "linesViewportData (logEvent e s) = linesViewportData s"
  "cursorViewSelections (logEvent e s) = cursorViewSelections s"
  "whitespaceViewportData (logEvent e s) = whitespaceViewportData s"
  by (simp_all add: logEvent_def)

lemma viewLines_shouldRender_logEvent [simp]:
  "viewLines_shouldRender (logEvent e s) = viewLines_shouldRender s"
  by (simp add: viewLines_shouldRender_def)

lemma newViewportData_logEvent [simp]: "newViewportData (logEvent e s) = newViewportData s"
  by (simp add: newViewportData_def)

lemma thr_trace_update [simp]:
  "render_thr (s\<lparr>trace := t\<rparr>) = render_thr s"
  "prepare_thr (s\<lparr>trace := t\<rparr>) = prepare_thr s"
  by (rule ext, simp add: render_thr_def prepare_thr_def)+

lemma partsStage_trace:
  "trace (fst (andThen (prepareLoop ctx ps s) (renderLoop ctx ps) id)) =
     trace s @ map (\<lambda>a. PrepareRender a ctx) (upToThrow (prepare_thr s) ps) @
     (if firstThrow (prepare_thr s) ps = None then renderEvents ctx (render_thr s) ps else [])"
  by (cases "firstThrow (prepare_thr s) ps")
     (simp_all add: prepareLoop_eq andThen_def renderLoop_trace render_thr_def)

lemma partsStage_throw:
  "snd (andThen (prepareLoop ctx ps s) (renderLoop ctx ps) id) =
     (if firstThrow (prepare_thr s) ps \<noteq> None then firstThrow (prepare_thr s) ps
      else firstThrow (render_thr s) ps)"
  by (cases "firstThrow (prepare_thr s) ps")
     (simp_all add: prepareLoop_eq andThen_def renderLoop_throw render_thr_def)

lemma partsStage_renders_only:
  "renders_only s (fst (andThen (prepareLoop ctx ps s) (renderLoop ctx ps) id))"
proof (cases "firstThrow (prepare_thr s) ps")
  case None
  have 1: "renders_only s (s\<lparr>trace := trace s @ map (\<lambda>a. PrepareRender a ctx) (upToThrow (prepare_thr s) ps)\<rparr>)"
    by (simp add: renders_only_def)
  from None show ?thesis
    by (simp add: prepareLoop_eq andThen_def renders_only_trans [OF 1 renderLoop_renders_only])
next
  case (Some e)
  then show ?thesis
    by (simp add: prepareLoop_eq andThen_def renders_only_def)
qed

lemma partsStage_trace2:
  "trace (fst (partsStage vd ps s)) = trace s @ partsEvents (RenderingContext vd) s ps"
  by (simp add: partsStage_def partsStage_trace partsEvents_def)

lemma partsStage_throw2:
  "snd (partsStage vd ps s) =
     (if firstThrow (prepare_thr s) ps \<noteq> None then firstThrow (prepare_thr s) ps
      else firstThrow (render_thr s) ps)"
  by (simp add: partsStage_def partsStage_throw)

lemma partsStage_renders_only2: "renders_only s (fst (partsStage vd ps s))"
  unfolding partsStage_def
  by (rule renders_only_trans [OF renders_only_logEvent partsStage_renders_only])

lemma andThen_simps [simp]:
  "andThen (s, None) f g = f s"
  "andThen (s, Some e) f g = (g s, Some e)"
  by (simp_all add: andThen_def)

lemma actualRender_unfold:
  "actualRender s0 =
     (let s = logEvent ActualRender s0 in
      if passCutShort s0 then (s, None)
      else
        let s = logEvent (SetViewport (vp_startLineNumber (linesViewportData s0))
                              (vp_endLineNumber (linesViewportData s0))
                              (vp_centeredLineNumber (linesViewportData s0))) s;
            vd = newViewportData s0;
            s = logEvent (NewViewportData vd) s
        in
            andThen (if shouldRender s0 (contentWidgets s0)
                     then onBeforeRender vd s else (s, None))
              (linesStage vd (filter (shouldRender s0) (viewParts s0)))
              id)"
  unfolding actualRender_def Let_def partsStage_def linesStage_def passCutShort_def
    getViewPartsToRender_filter
  by simp

lemma onBeforeRender_eq:
  "onBeforeRender vd s = (logEvent (OnBeforeRender vd) s, onBeforeRender_throws s)"
  by (simp add: onBeforeRender_def)

lemma passDirtyParts_logEvent [simp]: "passDirtyParts (logEvent e s) = passDirtyParts s"
  by (simp add: passDirtyParts_def)

lemma viewLinesStage_trace:
  "trace (fst (linesStage vd ps0 s)) =
     trace s @ viewLinesEvents vd s @
       (if viewLines_shouldRender s \<and> renderText_throws (viewLines s) \<noteq> None then []
        else partsEvents (RenderingContext vd) s
               (if viewLines_shouldRender s then passDirtyParts s else ps0))"
  by (auto simp add: linesStage_def renderViewLines_eq partsStage_trace2 viewLinesEvents_def
        partsEvents_def split: option.splits)

lemma viewLinesStage_throw:
  "snd (linesStage vd ps0 s) =
     (if viewLines_shouldRender s \<and> renderText_throws (viewLines s) \<noteq> None
      then renderText_throws (viewLines s)
      else let ps = (if viewLines_shouldRender s then passDirtyParts s else ps0) in
        if firstThrow (prepare_thr s) ps \<noteq> None then firstThrow (prepare_thr s) ps
        else firstThrow (render_thr s) ps)"
  by (auto simp add: linesStage_def renderViewLines_eq partsStage_throw2 Let_def
        split: option.splits)

lemma viewLinesStage_renders_only:
  "renders_only s (fst (linesStage vd ps0 s))"
proof -
  let ?s1 = "logEvent (RenderText vd) s"
  let ?s2 = "viewLines_onDidRender (fold forceShouldRender (renderText_scrolls (viewLines s)) ?s1)"
  have 1: "renders_only s ?s1" by (rule renders_only_logEvent)
  have 2: "renders_only s ?s2"
    by (rule renders_only_trans [OF 1
          renders_only_trans [OF fold_forceShouldRender_renders_only renders_only_viewLines_onDidRender]])
  show ?thesis
    by (auto simp add: linesStage_def renderViewLines_eq 1 partsStage_renders_only2
          renders_only_trans [OF 2 partsStage_renders_only2]
          split: option.splits)
qed

lemma viewLinesEvents_logEvent [simp]: "viewLinesEvents vd (logEvent e s) = viewLinesEvents vd s"
  by (simp add: viewLinesEvents_def)

lemma partsEvents_logEvent [simp]: "partsEvents ctx (logEvent e s) ps = partsEvents ctx s ps"
  by (simp add: partsEvents_def)

lemma passDirtyParts_clean:
  "\<not> viewLines_shouldRender s \<Longrightarrow> passDirtyParts s = filter (shouldRender s) (viewParts s)"
  by (simp add: passDirtyParts_def)

lemma actualRender_trace: "trace (fst (actualRender s)) = trace s @ passEvents s"
  by (cases "onBeforeRender_throws s") (auto simp add: actualRender_unfold passEvents_def Let_def onBeforeRender_eq
        viewLinesStage_trace passDirtyParts_clean)

lemma actualRender_throw: "snd (actualRender s) = passThrow s"
  by (cases "onBeforeRender_throws s") (auto simp add: actualRender_unfold passThrow_def Let_def onBeforeRender_eq
        viewLinesStage_throw passDirtyParts_clean)

lemma actualRender_renders_only: "renders_only s (fst (actualRender s))"
proof -
  let ?s3 = "logEvent (NewViewportData (newViewportData s))
     (logEvent (SetViewport (vp_startLineNumber (linesViewportData s)) (vp_endLineNumber (linesViewportData s))
           (vp_centeredLineNumber (linesViewportData s))) (logEvent ActualRender s))"
  have 3: "renders_only s ?s3" by (simp add: renders_only_def logEvent_def)
  have 4: "renders_only s (logEvent (OnBeforeRender vd) ?s3)" for vd
    by (simp add: renders_only_def logEvent_def)
  show ?thesis
    by (cases "onBeforeRender_throws s") (auto simp add: actualRender_unfold Let_def onBeforeRender_eq
          renders_only_logEvent 4
          renders_only_trans [OF 3 viewLinesStage_renders_only]
          renders_only_trans [OF 4 viewLinesStage_renders_only])
qed

lemma renderNow_eq:
  "renderNow s =
     (case passThrow s of
        None \<Rightarrow> fst (actualRender s)
      | Some e \<Rightarrow> onUnexpectedError e (fst (actualRender s)))"
  using actualRender_throw [of s]
  by (cases "actualRender s") (simp add: renderNow_def safeInvokeNoArg_def split: option.splits)

lemma renderNow_trace: "trace (renderNow s) = trace s @ passEvents s"
  by (simp add: renderNow_eq actualRender_trace onUnexpectedError_def split: option.splits)

lemma renderNow_unexpectedErrors:
  "unexpectedErrors (renderNow s) =
     unexpectedErrors s @ (case passThrow s of None \<Rightarrow> [] | Some e \<Rightarrow> [e])"
  by (simp add: renderNow_eq onUnexpectedError_def
        renders_only_fields(12) [OF actualRender_renders_only] split: option.splits)

lemma renderNow_scheduler:
  "renderAnimationFrame (renderNow s) = renderAnimationFrame s"
  "hostQueue (renderNow s) = hostQueue s"
  "nextHandle (renderNow s) = nextHandle s"
  by (simp_all add: renderNow_eq onUnexpectedError_def
        renders_only_fields [OF actualRender_renders_only] split: option.splits)

lemma filter_ActualRender_partsEvents: "filter (\<lambda>e. e = ActualRender) (partsEvents ctx s ps) = []"
  by (auto simp add: partsEvents_def renderEvents_def filter_empty_conv)

lemma filter_ActualRender_passEvents: "filter (\<lambda>e. e = ActualRender) (passEvents s) = [ActualRender]"
  by (simp add: passEvents_def viewLinesEvents_def filter_ActualRender_partsEvents)

lemma passes_renderNow: "passes (renderNow s) = Suc (passes s)"
  by (simp add: passes_def renderNow_trace filter_ActualRender_passEvents)

lemma scheduleRender_pending: "renderAnimationFrame s \<noteq> None \<Longrightarrow> scheduleRender s = s"
  by (auto simp add: scheduleRender_def)

lemma scheduleRender_sets_pending: "renderAnimationFrame (scheduleRender s) \<noteq> None"
  by (simp add: scheduleRender_def runAtThisOrScheduleAtNextAnimationFrame_def)

lemma scheduleRender_inv: "scheduler_inv s \<Longrightarrow> scheduler_inv (scheduleRender s)"
  by (auto simp add: scheduler_inv_def scheduleRender_def
        runAtThisOrScheduleAtNextAnimationFrame_def)

lemma scheduleRender_trace [simp]: "trace (scheduleRender s) = trace s"
  by (simp add: scheduleRender_def runAtThisOrScheduleAtNextAnimationFrame_def)

lemma scheduleRender_funpow: "0 < k \<Longrightarrow> (scheduleRender ^^ k) s = scheduleRender s"
proof (induction k)
  case 0
  then show ?case by simp
next
  case (Suc k)
  show ?case
  proof (cases "k = 0")
    case True
    then show ?thesis by simp
  next
    case False
    with Suc.IH have "(scheduleRender ^^ k) s = scheduleRender s" by simp
    then show ?thesis
      by (simp add: scheduleRender_pending [OF scheduleRender_sets_pending])
  qed
qed

lemma renderNow_inv: "scheduler_inv s \<Longrightarrow> scheduler_inv (renderNow s)"
  by (simp add: scheduler_inv_def renderNow_scheduler)

lemma hostFire_pending:
  "scheduler_inv s \<Longrightarrow> renderAnimationFrame s \<noteq> None \<Longrightarrow>
   hostFire s = renderNow (s\<lparr>hostQueue := [], renderAnimationFrame := None\<rparr>)"
  by (auto simp add: scheduler_inv_def hostFire_def onRenderScheduled_def
        flushAccumulatedAndRenderNow_def)

lemma hostFire_idle:
  "scheduler_inv s \<Longrightarrow> renderAnimationFrame s = None \<Longrightarrow> hostFire s = s"
  by (simp add: scheduler_inv_def hostFire_def)

lemma hostFire_inv: "scheduler_inv s \<Longrightarrow> scheduler_inv (hostFire s)"
  by (cases "renderAnimationFrame s")
     (simp_all add: hostFire_idle hostFire_pending renderNow_inv, simp add: scheduler_inv_def renderNow_scheduler)

lemma passes_hostFire_pending:
  "scheduler_inv s \<Longrightarrow> renderAnimationFrame s \<noteq> None \<Longrightarrow> passes (hostFire s) = Suc (passes s)"
  by (simp add: hostFire_pending passes_renderNow) (simp add: passes_def)

lemma passTrace_eq: "passTrace s = passEvents s"
  by (simp add: passTrace_def eventsSince_def renderNow_trace)

lemma commitsOf_append [simp]: "commitsOf (xs @ ys) = commitsOf xs @ commitsOf ys"
  by (induction xs rule: commitsOf.induct) simp_all

lemma preparesOf_append [simp]: "preparesOf (xs @ ys) = preparesOf xs @ preparesOf ys"
  by (induction xs rule: preparesOf.induct) simp_all

lemma commitsOf_prepares [simp]: "commitsOf (map (\<lambda>a. PrepareRender a ctx) xs) = []"
  by (induction xs) simp_all

lemma preparesOf_prepares [simp]: "preparesOf (map (\<lambda>a. PrepareRender a ctx) xs) = xs"
  by (induction xs) simp_all

lemma upToThrow_None: "firstThrow thr ps = None \<Longrightarrow> upToThrow thr ps = ps"
  by (induction ps) (auto split: option.splits)

lemma upToThrow_Some:
  "firstThrow thr ps = Some e \<Longrightarrow>
   \<exists>k<length ps. upToThrow thr ps = take (Suc k) ps \<and> thr (ps ! k) = Some e"
proof (induction ps)
  case Nil
  then show ?case by simp
next
  case (Cons a ps)
  show ?case
  proof (cases "thr a")
    case None
    with Cons.prems have "firstThrow thr ps = Some e" by simp
    from Cons.IH [OF this] obtain k where
      k: "k < length ps" "upToThrow thr ps = take (Suc k) ps" "thr (ps ! k) = Some e"
      by blast
    from k None have "Suc k < length (a # ps) \<and> upToThrow thr (a # ps) = take (Suc (Suc k)) (a # ps) \<and>
        thr ((a # ps) ! Suc k) = Some e"
      by simp
    then show ?thesis by blast
  next
    case (Some e')
    with Cons.prems have "0 < length (a # ps) \<and> upToThrow thr (a # ps) = take (Suc 0) (a # ps) \<and>
        thr ((a # ps) ! 0) = Some e"
      by simp
    then show ?thesis by blast
  qed
qed

lemma upToThrow_take: "\<exists>k. upToThrow thr ps = take k ps"
proof (cases "firstThrow thr ps")
  case None
  then have "upToThrow thr ps = take (length ps) ps" by (simp add: upToThrow_None)
  then show ?thesis by blast
next
  case (Some e)
  from upToThrow_Some [OF this] show ?thesis by blast
qed

lemma commitsOf_renderEvents [simp]: "commitsOf (renderEvents ctx thr ps) = upToThrow thr ps"
  by (induction ps) (simp_all add: renderEvents_def)

lemma preparesOf_renderEvents [simp]: "preparesOf (renderEvents ctx thr ps) = []"
  by (induction ps) (simp_all add: renderEvents_def)

lemma commitsOf_viewLinesEvents [simp]: "commitsOf (viewLinesEvents vd s) = []"
  by (simp add: viewLinesEvents_def)

lemma preparesOf_viewLinesEvents [simp]: "preparesOf (viewLinesEvents vd s) = []"
  by (simp add: viewLinesEvents_def)

lemma commitsOf_passEvents:
  "commitsOf (passEvents s) =
     (if passCutShort s \<or> (shouldRender s (contentWidgets s) \<and> onBeforeRender_throws s \<noteq> None) \<or>
         (viewLines_shouldRender s \<and> renderText_throws (viewLines s) \<noteq> None) \<or>
         firstThrow (prepare_thr s) (passDirtyParts s) \<noteq> None
      then [] else upToThrow (render_thr s) (passDirtyParts s))"
  by (auto simp add: passEvents_def partsEvents_def)

lemma preparesOf_passEvents:
  "preparesOf (passEvents s) =
     (if passCutShort s \<or> (shouldRender s (contentWidgets s) \<and> onBeforeRender_throws s \<noteq> None) \<or>
         (viewLines_shouldRender s \<and> renderText_throws (viewLines s) \<noteq> None)
      then [] else upToThrow (prepare_thr s) (passDirtyParts s))"
  by (auto simp add: passEvents_def partsEvents_def)

lemma last_renderEvents:
  "firstThrow thr ps = Some e \<Longrightarrow>
   \<exists>k<length ps. renderEvents ctx thr ps \<noteq> [] \<and> last (renderEvents ctx thr ps) = Render (ps ! k) ctx \<and>
     thr (ps ! k) = Some e \<and> upToThrow thr ps = take (Suc k) ps"
proof (induction ps)
  case Nil
  then show ?case by simp
next
  case (Cons a ps)
  show ?case
  proof (cases "thr a")
    case None
    with Cons.prems have "firstThrow thr ps = Some e" by simp
    from Cons.IH [OF this] obtain k where
      k: "k < length ps" "renderEvents ctx thr ps \<noteq> []" "last (renderEvents ctx thr ps) = Render (ps ! k) ctx"
         "thr (ps ! k) = Some e" "upToThrow thr ps = take (Suc k) ps"
      by blast
    have r: "renderEvents ctx thr (a # ps) = Render a ctx # OnDidRender a # renderEvents ctx thr ps"
      using None by (simp add: renderEvents_def)
    from k None have "Suc k < length (a # ps) \<and> renderEvents ctx thr (a # ps) \<noteq> [] \<and>
        last (renderEvents ctx thr (a # ps)) = Render ((a # ps) ! Suc k) ctx \<and>
        thr ((a # ps) ! Suc k) = Some e \<and> upToThrow thr (a # ps) = take (Suc (Suc k)) (a # ps)"
      by (simp add: r)
    then show ?thesis by blast
  next
    case (Some e')
    with Cons.prems have "0 < length (a # ps) \<and> renderEvents ctx thr (a # ps) \<noteq> [] \<and>
        last (renderEvents ctx thr (a # ps)) = Render ((a # ps) ! 0) ctx \<and>
        thr ((a # ps) ! 0) = Some e \<and> upToThrow thr (a # ps) = take (Suc 0) (a # ps)"
      by (simp add: renderEvents_def)
    then show ?thesis by blast
  qed
qed

lemma last_prepares:
  "firstThrow thr ps = Some e \<Longrightarrow>
   \<exists>k<length ps. upToThrow thr ps \<noteq> [] \<and>
     last (map (\<lambda>a. PrepareRender a ctx) (upToThrow thr ps)) = PrepareRender (ps ! k) ctx \<and>
     thr (ps ! k) = Some e \<and> upToThrow thr ps = take (Suc k) ps"
proof -
  assume "firstThrow thr ps = Some e"
  from upToThrow_Some [OF this] obtain k where
    k: "k < length ps" "upToThrow thr ps = take (Suc k) ps" "thr (ps ! k) = Some e" by blast
  from k have ne: "upToThrow thr ps \<noteq> []" by auto
  have "last (take (Suc k) ps) = ps ! k"
    using k(1) by (simp add: take_Suc_conv_app_nth)
  with k ne have "last (map (\<lambda>a. PrepareRender a ctx) (upToThrow thr ps)) = PrepareRender (ps ! k) ctx"
    by (simp add: last_map)
  with k ne show ?thesis by blast
qed

lemma passEvents_failure:
  assumes "passThrow s = Some e"
  shows "passEvents s \<noteq> [] \<and> callThrows s (last (passEvents s)) e \<and>
    (\<forall>a ctx. last (passEvents s) = Render a ctx \<longrightarrow>
       (\<exists>k<length (passDirtyParts s). passDirtyParts s ! k = a \<and>
          commitsOf (passEvents s) = take (Suc k) (passDirtyParts s))) \<and>
    ((\<forall>a ctx. last (passEvents s) \<noteq> Render a ctx) \<longrightarrow> commitsOf (passEvents s) = [])"
proof -
  let ?ps = "passDirtyParts s"
  let ?ctx = "RenderingContext (newViewportData s)"
  from assms have ncs: "\<not> passCutShort s"
    by (auto simp add: passThrow_def split: if_splits)
  consider
      (before) "shouldRender s (contentWidgets s)" "onBeforeRender_throws s = Some e"
    | (lines) "\<not> (shouldRender s (contentWidgets s) \<and> onBeforeRender_throws s \<noteq> None)"
        "viewLines_shouldRender s" "renderText_throws (viewLines s) = Some e"
    | (prepare) "\<not> (shouldRender s (contentWidgets s) \<and> onBeforeRender_throws s \<noteq> None)"
        "\<not> (viewLines_shouldRender s \<and> renderText_throws (viewLines s) \<noteq> None)"
        "firstThrow (prepare_thr s) ?ps = Some e"
    | (render) "\<not> (shouldRender s (contentWidgets s) \<and> onBeforeRender_throws s \<noteq> None)"
        "\<not> (viewLines_shouldRender s \<and> renderText_throws (viewLines s) \<noteq> None)"
        "firstThrow (prepare_thr s) ?ps = None" "firstThrow (render_thr s) ?ps = Some e"
    using assms ncs by (auto simp add: passThrow_def split: if_splits)
  then show ?thesis
  proof cases
    case before
    with ncs show ?thesis by (simp add: passEvents_def)
  next
    case lines
    with ncs show ?thesis by (auto simp add: passEvents_def viewLinesEvents_def)
  next
    case prepare
    from last_prepares [OF prepare(3), of ?ctx] obtain k where
      k: "k < length ?ps" "upToThrow (prepare_thr s) ?ps \<noteq> []"
         "last (map (\<lambda>a. PrepareRender a ?ctx) (upToThrow (prepare_thr s) ?ps)) = PrepareRender (?ps ! k) ?ctx"
         "prepare_thr s (?ps ! k) = Some e"
      by blast
    have ev: "passEvents s =
        ([ActualRender,
          SetViewport (vp_startLineNumber (linesViewportData s)) (vp_endLineNumber (linesViewportData s))
            (vp_centeredLineNumber (linesViewportData s)),
          NewViewportData (newViewportData s)] @
         (if shouldRender s (contentWidgets s) then [OnBeforeRender (newViewportData s)] else []) @
         viewLinesEvents (newViewportData s) s @ [NewRenderingContext ?ctx]) @
        map (\<lambda>a. PrepareRender a ?ctx) (upToThrow (prepare_thr s) ?ps)"
      using ncs prepare by (auto simp add: passEvents_def partsEvents_def)
    have l: "last (passEvents s) = PrepareRender (?ps ! k) ?ctx"
      using k(2,3) by (subst ev) (simp only: last_appendR map_is_Nil_conv not_False_eq_True)
    have c: "commitsOf (passEvents s) = []"
      using prepare ncs by (auto simp add: commitsOf_passEvents)
    have ne: "passEvents s \<noteq> []"
      by (subst ev) simp
    from l c k(4) ne show ?thesis
      by (simp add: prepare_thr_def)
  next
    case render
    from last_renderEvents [OF render(4), of ?ctx] obtain k where
      k: "k < length ?ps" "renderEvents ?ctx (render_thr s) ?ps \<noteq> []"
         "last (renderEvents ?ctx (render_thr s) ?ps) = Render (?ps ! k) ?ctx"
         "render_thr s (?ps ! k) = Some e" "upToThrow (render_thr s) ?ps = take (Suc k) ?ps"
      by blast
    have ev: "passEvents s =
        ([ActualRender,
          SetViewport (vp_startLineNumber (linesViewportData s)) (vp_endLineNumber (linesViewportData s))
            (vp_centeredLineNumber (linesViewportData s)),
          NewViewportData (newViewportData s)] @
         (if shouldRender s (contentWidgets s) then [OnBeforeRender (newViewportData s)] else []) @
         viewLinesEvents (newViewportData s) s @ [NewRenderingContext ?ctx] @
         map (\<lambda>a. PrepareRender a ?ctx) (upToThrow (prepare_thr s) ?ps)) @
        renderEvents ?ctx (render_thr s) ?ps"
      using ncs render by (auto simp add: passEvents_def partsEvents_def)
    have l: "last (passEvents s) = Render (?ps ! k) ?ctx"
      using k(2,3) by (subst ev) (simp only: last_appendR not_False_eq_True)
    have c: "commitsOf (passEvents s) = take (Suc k) ?ps"
      using render ncs k(5) by (auto simp add: commitsOf_passEvents)
    have ne: "passEvents s \<noteq> []"
      by (subst ev) simp
    from l c k(1,4) ne show ?thesis
      by (auto simp add: render_thr_def)
  qed
qed

lemma commitsOf_Nil_iff: "commitsOf xs = [] \<longleftrightarrow> (\<forall>e\<in>set xs. \<not> isCommit e)"
  by (induction xs rule: commitsOf.induct) simp_all

lemma preparesOf_Nil_iff: "preparesOf xs = [] \<longleftrightarrow> (\<forall>e\<in>set xs. \<not> isPrepare e)"
  by (induction xs rule: preparesOf.induct) simp_all

lemma passEvents_split:
  "\<exists>xs ys. passEvents s = xs @ ys \<and> commitsOf xs = [] \<and> preparesOf ys = [] \<and>
     (commitsOf ys \<noteq> [] \<longrightarrow> preparesOf xs = passDirtyParts s)"
proof (cases "commitsOf (passEvents s) = []")
  case True
  then have "passEvents s = passEvents s @ [] \<and> commitsOf (passEvents s) = [] \<and> preparesOf [] = [] \<and>
     (commitsOf [] \<noteq> [] \<longrightarrow> preparesOf (passEvents s) = passDirtyParts s)"
    by simp
  then show ?thesis by blast
next
  case False
  let ?ps = "passDirtyParts s"
  let ?ctx = "RenderingContext (newViewportData s)"
  let ?xs = "[ActualRender,
          SetViewport (vp_startLineNumber (linesViewportData s)) (vp_endLineNumber (linesViewportData s))
            (vp_centeredLineNumber (linesViewportData s)),
          NewViewportData (newViewportData s)] @
         (if shouldRender s (contentWidgets s) then [OnBeforeRender (newViewportData s)] else []) @
         viewLinesEvents (newViewportData s) s @ [NewRenderingContext ?ctx] @
         map (\<lambda>a. PrepareRender a ?ctx) ?ps"
  from False have c: "\<not> passCutShort s"
      "\<not> (shouldRender s (contentWidgets s) \<and> onBeforeRender_throws s \<noteq> None)"
      "\<not> (viewLines_shouldRender s \<and> renderText_throws (viewLines s) \<noteq> None)"
      "firstThrow (prepare_thr s) ?ps = None"
    by (auto simp add: commitsOf_passEvents split: if_splits)
  have ev: "passEvents s = ?xs @ renderEvents ?ctx (render_thr s) ?ps"
    using c by (auto simp add: passEvents_def partsEvents_def upToThrow_None)
  have "commitsOf ?xs = [] \<and> preparesOf (renderEvents ?ctx (render_thr s) ?ps) = [] \<and> preparesOf ?xs = ?ps"
    by simp
  with ev show ?thesis by blast
qed

lemma two_phase_from_split:
  assumes "evs = xs @ ys" and "commitsOf xs = []" and "preparesOf ys = []"
    and "commitsOf ys \<noteq> [] \<longrightarrow> preparesOf xs = P"
  shows "(\<forall>i j. i < j \<and> j < length evs \<and> isCommit (evs ! i) \<longrightarrow> \<not> isPrepare (evs ! j)) \<and>
         (\<forall>i. i < length evs \<and> isCommit (evs ! i) \<longrightarrow> preparesOf (take i evs) = P)"
proof (intro conjI allI impI)
  fix i j
  assume h: "i < j \<and> j < length evs \<and> isCommit (evs ! i)"
  have "length xs \<le> i"
  proof (rule ccontr)
    assume "\<not> length xs \<le> i"
    then have "i < length xs" by simp
    then have "evs ! i \<in> set xs" by (simp add: assms(1) nth_append)
    with assms(2) h show False by (simp add: commitsOf_Nil_iff)
  qed
  with h have "evs ! j = ys ! (j - length xs)" and "j - length xs < length ys"
    by (auto simp add: assms(1) nth_append)
  then have "evs ! j \<in> set ys"
    by simp
  with assms(3) show "\<not> isPrepare (evs ! j)" by (simp add: preparesOf_Nil_iff)
next
  fix i
  assume h: "i < length evs \<and> isCommit (evs ! i)"
  have le: "length xs \<le> i"
  proof (rule ccontr)
    assume "\<not> length xs \<le> i"
    then have "i < length xs" by simp
    then have "evs ! i \<in> set xs" by (simp add: assms(1) nth_append)
    with assms(2) h show False by (simp add: commitsOf_Nil_iff)
  qed
  with h have "evs ! i = ys ! (i - length xs)" and "i - length xs < length ys"
    by (auto simp add: assms(1) nth_append)
  then have "evs ! i \<in> set ys"
    by simp
  with h have "commitsOf ys \<noteq> []" by (auto simp add: commitsOf_Nil_iff)
  with assms(4) have p: "preparesOf xs = P" by simp
  have "\<forall>e\<in>set (take (i - length xs) ys). \<not> isPrepare e"
    using assms(3) by (auto simp add: preparesOf_Nil_iff dest: in_set_takeD)
  then have "preparesOf (take (i - length xs) ys) = []"
    by (simp add: preparesOf_Nil_iff)
  with le p show "preparesOf (take i evs) = P"
    by (simp add: assms(1))
qed

lemma commitsOf_passEvents_take: "\<exists>k. commitsOf (passEvents s) = take k (passDirtyParts s)"
proof (cases "commitsOf (passEvents s) = []")
  case True
  then have "commitsOf (passEvents s) = take 0 (passDirtyParts s)" by simp
  then show ?thesis by blast
next
  case False
  then have "commitsOf (passEvents s) = upToThrow (render_thr s) (passDirtyParts s)"
    by (auto simp add: commitsOf_passEvents split: if_splits)
  with upToThrow_take [of "render_thr s" "passDirtyParts s"] show ?thesis by auto
qed

lemma passDirtyParts_Nil_cutShort:
  "passCutShort s \<Longrightarrow> inDOM s \<Longrightarrow> passDirtyParts s = []"
  by (auto simp add: passCutShort_def passDirtyParts_def)

lemma passEvents_complete:
  assumes "inDOM s" and "passThrow s = None"
  shows "commitsOf (passEvents s) = passDirtyParts s \<and> preparesOf (passEvents s) = passDirtyParts s"
proof (cases "passCutShort s")
  case True
  with assms(1) show ?thesis
    by (simp add: passDirtyParts_Nil_cutShort passEvents_def)
next
  case False
  with assms(2) have c:
      "\<not> (shouldRender s (contentWidgets s) \<and> onBeforeRender_throws s \<noteq> None)"
      "\<not> (viewLines_shouldRender s \<and> renderText_throws (viewLines s) \<noteq> None)"
      "firstThrow (prepare_thr s) (passDirtyParts s) = None"
      "firstThrow (render_thr s) (passDirtyParts s) = None"
    by (auto simp add: passThrow_def split: if_splits)
  with False show ?thesis
    by (auto simp add: commitsOf_passEvents preparesOf_passEvents upToThrow_None)
qed

lemma settles_refl: "settles s s"
  by (simp add: settles_def)

lemma settles_trans: "settles s s' \<Longrightarrow> settles s' s'' \<Longrightarrow> settles s s''"
  by (simp add: settles_def)

lemma settles_logEvent: "settles s (logEvent e s)"
  by (simp add: settles_def)

lemma settles_trace_update: "settles s (s\<lparr>trace := t\<rparr>)"
  by (simp add: settles_def shouldRender_def viewLines_shouldRender_def)

lemma settles_onDidRender: "settles s (onDidRender a s)"
  by (simp add: settles_def) (simp add: shouldRender_def onDidRender_def logEvent_def viewLines_shouldRender_def)

lemma thr_onUnexpectedError [simp]:
  "render_thr (onUnexpectedError e s) = render_thr s"
  "prepare_thr (onUnexpectedError e s) = prepare_thr s"
  by (rule ext, simp add: render_thr_def prepare_thr_def onUnexpectedError_def)+

lemma settles_onUnexpectedError: "settles s (onUnexpectedError e s)"
  by (simp add: settles_def) (simp add: shouldRender_def viewLines_shouldRender_def onUnexpectedError_def)

lemma renderLoop_settles: "settles s (fst (renderLoop ctx ps s))"
proof (induction ps arbitrary: s)
  case Nil
  show ?case by (simp add: settles_refl)
next
  case (Cons a ps)
  have 1: "settles s (onDidRender a (logEvent (Render a ctx) s))"
    by (rule settles_trans [OF settles_logEvent settles_onDidRender])
  show ?case
    by (cases "render_thr s a")
       (auto simp add: viewPart_render_eq settles_logEvent intro: settles_trans [OF 1 Cons.IH])
qed

lemma partsStage_settles: "settles s (fst (partsStage vd ps s))"
proof -
  let ?ctx = "RenderingContext vd"
  let ?s1 = "logEvent (NewRenderingContext ?ctx) s"
  let ?s2 = "?s1\<lparr>trace := trace ?s1 @ map (\<lambda>a. PrepareRender a ?ctx) (upToThrow (prepare_thr ?s1) ps)\<rparr>"
  have 2: "settles s ?s2"
    by (rule settles_trans [OF settles_logEvent settles_trace_update])
  show ?thesis
  proof (cases "firstThrow (prepare_thr ?s1) ps")
    case None
    then show ?thesis
      using settles_trans [OF 2 renderLoop_settles]
      by (simp add: partsStage_def prepareLoop_eq)
  next
    case (Some e)
    then show ?thesis
      using 2 by (simp add: partsStage_def prepareLoop_eq)
  qed
qed

lemma actualRender_settles:
  assumes "\<not> viewLines_shouldRender s"
  shows "settles s (fst (actualRender s))"
proof -
  let ?s3 = "logEvent (NewViewportData (newViewportData s))
     (logEvent (SetViewport (vp_startLineNumber (linesViewportData s)) (vp_endLineNumber (linesViewportData s))
           (vp_centeredLineNumber (linesViewportData s))) (logEvent ActualRender s))"
  have 3: "settles s ?s3"
    by (rule settles_trans [OF settles_logEvent settles_trans [OF settles_logEvent settles_logEvent]])
  have 4: "settles s (logEvent (OnBeforeRender vd) ?s3)" for vd
    by (rule settles_trans [OF 3 settles_logEvent])
  have l: "linesStage vd ps0 t = partsStage vd ps0 t" if "\<not> viewLines_shouldRender t" for vd ps0 t
    using that by (simp add: linesStage_def renderViewLines_eq)
  show ?thesis
    using assms
    by (cases "onBeforeRender_throws s")
       (auto simp add: actualRender_unfold Let_def onBeforeRender_eq settles_logEvent 4 l
          settles_trans [OF 3 partsStage_settles] settles_trans [OF 4 partsStage_settles])
qed

lemma renderNow_settles:
  assumes "\<not> viewLines_shouldRender s"
  shows "settles s (renderNow s)"
  using actualRender_settles [OF assms]
  by (auto simp add: renderNow_eq split: option.splits
        intro: settles_trans [OF _ settles_onUnexpectedError])

lemma renderNow_fields:
  "viewParts (renderNow s) = viewParts s"
  "inDOM (renderNow s) = inDOM s"
  "contentWidgets (renderNow s) = contentWidgets s"
  "onBeforeRender_throws (renderNow s) = onBeforeRender_throws s"
  by (simp_all add: renderNow_eq onUnexpectedError_def
        renders_only_fields [OF actualRender_renders_only] split: option.splits)

lemma passThrow_None_clean:
  assumes "viewLines_shouldRender s \<longrightarrow> renderText_throws (viewLines s) = None"
    and "onBeforeRender_throws s = None"
    and "\<forall>a\<in>set (passDirtyParts s). prepare_thr s a = None \<and> render_thr s a = None"
  shows "passThrow s = None"
proof -
  have "firstThrow thr ps = None" if "\<forall>a\<in>set ps. thr a = None" for thr :: "nat \<Rightarrow> exn option" and ps
    using that by (induction ps) simp_all
  with assms show ?thesis
    by (simp add: passThrow_def)
qed

lemma forceShouldRender_fields [simp]:
  "viewParts (forceShouldRender a s) = viewParts s"
  "inDOM (forceShouldRender a s) = inDOM s"
  "onBeforeRender_throws (forceShouldRender a s) = onBeforeRender_throws s"
  "viewLines (forceShouldRender a s) = viewLines s"
  "trace (forceShouldRender a s) = trace s"
  by (simp_all add: forceShouldRender_def)

lemma viewLines_shouldRender_forceShouldRender [simp]:
  "viewLines_shouldRender (forceShouldRender a s) = viewLines_shouldRender s"
  by (simp add: viewLines_shouldRender_def)

lemma renders_only_viewLines_forceShouldRender: "renders_only s (viewLines_forceShouldRender s)"
  by (simp add: renders_only_def viewLines_forceShouldRender_def)

lemma renders_only_forceAll: "renders_only s (forceAll s)"
  unfolding forceAll_def
  by (rule renders_only_trans [OF renders_only_viewLines_forceShouldRender fold_forceShouldRender_renders_only])

lemma trace_forceAll [simp]: "trace (forceAll s) = trace s"
  by (simp add: forceAll_def viewLines_forceShouldRender_def)

lemma forceAll_viewLines:
  "viewLines_shouldRender (forceAll s)"
  "renderText_throws (viewLines (forceAll s)) = renderText_throws (viewLines s)"
  by (simp_all add: forceAll_def viewLines_shouldRender_def viewLines_forceShouldRender_def)

lemma forceAll_thr [simp]:
  "prepare_thr (forceAll s) = prepare_thr s"
  "render_thr (forceAll s) = render_thr s"
  by (simp add: forceAll_def, rule ext, simp add: prepare_thr_def viewLines_forceShouldRender_def,
      simp add: forceAll_def, rule ext, simp add: render_thr_def viewLines_forceShouldRender_def)

lemma shouldRender_forceAll: "a \<in> set (viewParts s) \<Longrightarrow> shouldRender (forceAll s) a"
  by (simp add: forceAll_def shouldRender_fold_forceShouldRender)

lemma passDirtyParts_forceAll: "passDirtyParts (forceAll s) = viewParts s"
proof -
  have v: "viewParts (forceAll s) = viewParts s"
    by (rule renders_only_fields(2) [OF renders_only_forceAll])
  show ?thesis
    by (simp add: passDirtyParts_def v shouldRender_forceAll)
qed

lemma View_render_now:
  "View_render True everything s = renderNow (if everything then forceAll s else s)"
  by (simp add: View_render_def forceAll_def flushAccumulatedAndRenderNow_def Let_def)

lemma scenario_dirty:
  assumes "viewParts s = [A, B, C]" and "\<not> shouldRender s A" and "shouldRender s B"
    and "\<not> shouldRender s C" and "\<not> viewLines_shouldRender s"
  shows "passDirtyParts s = [B]"
  using assms by (simp add: passDirtyParts_def)

lemma scenario_flush:
  assumes "viewParts s = [A, B, C]" and "\<not> shouldRender s A" and "shouldRender s B"
    and "\<not> shouldRender s C" and "\<not> viewLines_shouldRender s"
    and "inDOM s" and "onBeforeRender_throws s = None"
    and "prepareRender_throws (partStore s B) = None" and "render_throws (partStore s B) = None"
  shows "commitsOf (passEvents s) = [B]"
proof -
  have d: "passDirtyParts s = [B]"
    using assms(1-5) by (rule scenario_dirty)
  have t: "passThrow s = None"
    using assms(5,7,8,9) by (intro passThrow_None_clean) (simp_all add: d prepare_thr_def render_thr_def)
  from passEvents_complete [OF assms(6) t] show ?thesis
    by (simp add: d)
qed

lemma filter_cvd_partsEvents [simp]: "filter constructsViewportData (partsEvents ctx s ps) = []"
  by (auto simp add: partsEvents_def renderEvents_def filter_empty_conv)

lemma filter_cvd_viewLinesEvents [simp]: "filter constructsViewportData (viewLinesEvents vd s) = []"
  by (simp add: viewLinesEvents_def)

lemma filter_cvd_passEvents:
  "filter constructsViewportData (passEvents s) =
     (if passCutShort s then [] else [NewViewportData (newViewportData s)])"
  by (simp add: passEvents_def)

lemma viewportOf_partsEvents:
  "ev \<in> set (partsEvents (RenderingContext vd) s ps) \<Longrightarrow> viewportOf ev = Some vd' \<Longrightarrow> vd' = vd"
  by (auto simp add: partsEvents_def renderEvents_def split: if_splits)

lemma viewportOf_passEvents:
  "ev \<in> set (passEvents s) \<Longrightarrow> viewportOf ev = Some vd \<Longrightarrow> vd = newViewportData s"
  by (auto simp add: passEvents_def viewLinesEvents_def split: if_splits
        dest: viewportOf_partsEvents)

subsection \<open>The example states, evaluated\<close>

lemma exampleABC_fields:
  "viewParts exampleABC = [2, 3, 4]"
  "inDOM exampleABC"
  "contentWidgets exampleABC = 4"
  "onBeforeRender_throws exampleABC = None"
  "\<not> viewLines_shouldRender exampleABC"
  "renderText_throws (viewLines exampleABC) = None"
  "renderText_scrolls (viewLines exampleABC) = []"
  "trace exampleABC = []"
  "unexpectedErrors exampleABC = []"
  "renderAnimationFrame exampleABC = None"
  "hostQueue exampleABC = []"
  "\<not> shouldRender exampleABC a"
  "prepare_thr exampleABC a = None"
  "render_thr exampleABC a = None"
  by (simp_all add: exampleABC_def pushViewPart_def freshView_def viewLines_shouldRender_def
        shouldRender_def prepare_thr_def render_thr_def)

lemma failingB_fields:
  "viewParts failingB = [2, 3, 4]"
  "inDOM failingB"
  "contentWidgets failingB = 4"
  "onBeforeRender_throws failingB = None"
  "viewLines_shouldRender failingB"
  "renderText_throws (viewLines failingB) = None"
  "renderText_scrolls (viewLines failingB) = []"
  "trace failingB = []"
  "unexpectedErrors failingB = []"
  "renderAnimationFrame failingB = None"
  "hostQueue failingB = []"
  "linesViewportData failingB = \<lparr>vp_startLineNumber = 1, vp_endLineNumber = 1, vp_centeredLineNumber = 1\<rparr>"
  by (simp_all add: failingB_def renders_only_fields [OF renders_only_forceAll] exampleABC_fields
        forceAll_viewLines viewLines_shouldRender_def,
      simp_all add: forceAll_def viewLines_forceShouldRender_def exampleABC_def pushViewPart_def freshView_def)

lemma failingB_parts:
  "shouldRender failingB 2" "shouldRender failingB 3" "shouldRender failingB 4"
  "prepare_thr failingB a = None"
  "render_thr failingB 2 = None" "render_thr failingB 3 = Some 42" "render_thr failingB 4 = None"
  by (simp_all add: failingB_def shouldRender_def prepare_thr_def render_thr_def
        forceAll_def viewLines_forceShouldRender_def exampleABC_def pushViewPart_def freshView_def
        forceShouldRender_def)

lemma failingB_dirty: "passDirtyParts failingB = [2, 3, 4]"
  by (simp add: passDirtyParts_def failingB_fields failingB_parts)

lemma failingB_throw: "passThrow failingB = Some 42"
  by (simp add: passThrow_def passCutShort_def failingB_fields failingB_parts failingB_dirty)

lemma failingB_events:
  "passEvents failingB =
     [ActualRender, SetViewport 1 1 1, NewViewportData (newViewportData failingB),
      OnBeforeRender (newViewportData failingB), RenderText (newViewportData failingB),
      ViewLinesOnDidRender, NewRenderingContext (RenderingContext (newViewportData failingB)),
      PrepareRender 2 (RenderingContext (newViewportData failingB)),
      PrepareRender 3 (RenderingContext (newViewportData failingB)),
      PrepareRender 4 (RenderingContext (newViewportData failingB)),
      Render 2 (RenderingContext (newViewportData failingB)), OnDidRender 2,
      Render 3 (RenderingContext (newViewportData failingB))]"
  by (simp add: passEvents_def passCutShort_def failingB_fields failingB_parts failingB_dirty
        viewLinesEvents_def partsEvents_def renderEvents_def)

lemmas example_defs = exampleABC_def onlyB_def allDirty_def detachedB_def detachedABC_def
  pendingView_def pushViewPart_def freshView_def forceAll_def forceShouldRender_def
  viewLines_forceShouldRender_def scheduleRender_def runAtThisOrScheduleAtNextAnimationFrame_def

lemmas pass_eval = passEvents_def passThrow_def passCutShort_def passDirtyParts_def
  viewLinesEvents_def partsEvents_def renderEvents_def shouldRender_def viewLines_shouldRender_def
  prepare_thr_def render_thr_def newViewportData_def

lemma allDirty_events:
  "passEvents allDirty =
     [ActualRender, SetViewport 1 1 1, NewViewportData (newViewportData allDirty),
      OnBeforeRender (newViewportData allDirty), RenderText (newViewportData allDirty),
      ViewLinesOnDidRender, NewRenderingContext (RenderingContext (newViewportData allDirty)),
      PrepareRender 2 (RenderingContext (newViewportData allDirty)),
      PrepareRender 3 (RenderingContext (newViewportData allDirty)),
      PrepareRender 4 (RenderingContext (newViewportData allDirty)),
      Render 2 (RenderingContext (newViewportData allDirty)), OnDidRender 2,
      Render 3 (RenderingContext (newViewportData allDirty)), OnDidRender 3,
      Render 4 (RenderingContext (newViewportData allDirty)), OnDidRender 4]"
  by (simp add: pass_eval example_defs)

lemma allDirty_dirty: "passDirtyParts allDirty = [2, 3, 4]"
  by (simp add: pass_eval example_defs)

subsection \<open>Lemmas about \<open>View.change\<close>\<close>













section \<open>Lemmas about the key of a marker\<close>

lemma unat_digit: "d < 10 \<Longrightarrow> unat (digit d) = 48 + d"
  unfolding digit_def by (subst unat_of_nat) simp

lemma valueOf_digits: "valueOf (digits n) = n"
proof (induction n rule: digits.induct)
  case (1 n)
  show ?case
  proof (cases "n < 10")
    case True
    then show ?thesis by (subst digits.simps) (simp add: unat_digit)
  next
    case False
    with 1 have "valueOf (digits (n div 10)) = n div 10" by simp
    with False show ?thesis
      by (subst digits.simps) (simp add: unat_digit)
  qed
qed

lemma digits_inj: "digits a = digits b \<Longrightarrow> a = b"
  using valueOf_digits [of a] valueOf_digits [of b] by simp

lemma digits_range: "c \<in> set (digits n) \<Longrightarrow> 48 \<le> unat c \<and> unat c \<le> 57"
proof (induction n rule: digits.induct)
  case (1 n)
  show ?case
  proof (cases "n < 10")
    case True
    with 1(2) show ?thesis by (subst (asm) digits.simps) (auto simp add: unat_digit)
  next
    case False
    with 1 show ?thesis by (subst (asm) digits.simps) (auto simp add: unat_digit)
  qed
qed

lemma digits_not_Nil: "digits n \<noteq> []"
  by (subst digits.simps) simp

lemma not_digit: "unat c < 48 \<or> 57 < unat c \<Longrightarrow> c \<notin> set (digits n)"
  using digits_range [of c n] by auto

lemma hd_digits: "0 < n \<Longrightarrow> hd (digits n) \<noteq> 0x30"
proof (induction n rule: digits.induct)
  case (1 n)
  show ?case
  proof (cases "n < 10")
    case True
    with 1(2) have "unat (digit n) \<noteq> 48" by (simp add: unat_digit)
    then have "digit n \<noteq> 0x30" by auto
    with True show ?thesis by (subst digits.simps) simp
  next
    case False
    then have "0 < n div 10" by simp
    with 1(1) False have "hd (digits (n div 10)) \<noteq> 0x30" by simp
    with False show ?thesis
      by (subst digits.simps) (simp add: digits_not_Nil)
  qed
qed

lemma valueOf_zeros: "valueOf (xs @ replicate z 0x30) = valueOf xs * 10 ^ z"
proof -
  have "foldl (\<lambda>acc c. 10 * acc + (unat c - 48)) a (replicate z (0x30 :: 16 word)) = a * 10 ^ z" for a
    by (induction z arbitrary: a) simp_all
  then show ?thesis by simp
qed

lemma zeros_then_digits:
  assumes "replicate a z @ xs = replicate b z @ ys" and "xs \<noteq> []" and "ys \<noteq> []"
    and "hd xs \<noteq> z" and "hd ys \<noteq> z"
  shows "a = b \<and> xs = ys"
  using assms
proof (induction a arbitrary: b)
  case 0
  then show ?case by (cases b) (auto simp add: neq_Nil_conv)
next
  case (Suc a)
  then show ?case by (cases b) (auto simp add: neq_Nil_conv)
qed

lemma split_at_separator:
  assumes "c \<notin> set a" and "c \<notin> set a'" and "a @ c # r = a' @ c # r'"
  shows "a = a' \<and> r = r'"
  using assms
proof (induction a arbitrary: a')
  case Nil
  then show ?case by (cases a') auto
next
  case (Cons x a)
  then show ?case by (cases a') auto
qed


lemma format_Integral:
  "layoutOf s n = Integral \<Longrightarrow>
   formatDigits s n = digits s @ replicate (nat (n - int (length (digits s)))) 0x30"
  by (auto simp add: layoutOf_def formatDigits_def Let_def split: if_splits)

lemma format_Decimal:
  "layoutOf s n = Decimal \<Longrightarrow>
   formatDigits s n = take (nat n) (digits s) @ 0x2E # drop (nat n) (digits s)"
  by (auto simp add: layoutOf_def formatDigits_def Let_def split: if_splits)

lemma format_Leading0:
  "layoutOf s n = Leading0 \<Longrightarrow>
   formatDigits s n = 0x30 # 0x2E # replicate (nat (- n)) 0x30 @ digits s"
  by (auto simp add: layoutOf_def formatDigits_def Let_def split: if_splits)

lemma format_Exponent:
  "layoutOf s n = Exponent \<Longrightarrow>
   formatDigits s n =
     significand s @ 0x65 # (if n < 0 then 0x2D else 0x2B) # digits (nat \<bar>n - 1\<bar>)"
  by (auto simp add: layoutOf_def formatDigits_def significand_def Let_def split: if_splits)

lemma layoutOf_cases:
  "layoutOf s n = Integral \<or> layoutOf s n = Decimal \<or> layoutOf s n = Leading0 \<or>
   layoutOf s n = Exponent"
  by (cases "layoutOf s n") simp_all

lemma no_e_in_digits [simp]: "(0x65 :: 16 word) \<notin> set (digits n)"
  by (rule not_digit) simp

lemma no_dot_in_digits [simp]: "(0x2E :: 16 word) \<notin> set (digits n)"
  by (rule not_digit) simp

lemma no_e_in_significand: "(0x65 :: 16 word) \<notin> set (significand s)"
proof -
  have "(0x65 :: 16 word) \<notin> set (hd (digits s) # tl (digits s))"
    using digits_not_Nil [of s] by simp
  then show ?thesis
    by (auto simp add: significand_def)
qed

lemma layout_seen:
  assumes "0 < s"
  shows "layoutSeen (formatDigits s n) = layoutOf s n"
proof -
  consider "layoutOf s n = Integral" | "layoutOf s n = Decimal" | "layoutOf s n = Leading0"
    | "layoutOf s n = Exponent"
    using layoutOf_cases by blast
  then show ?thesis
  proof cases
    case 1
    then show ?thesis
      by (simp add: format_Integral layoutSeen_def)
  next
    case 2
    then have n: "0 < n" "nat n < length (digits s)"
      by (auto simp add: layoutOf_def split: if_splits)
    have e: "(0x65 :: 16 word) \<notin> set (take (nat n) (digits s))"
        "(0x65 :: 16 word) \<notin> set (drop (nat n) (digits s))"
      using no_e_in_digits [of s] by (auto dest: in_set_takeD in_set_dropD)
    from n have "hd (take (nat n) (digits s) @ 0x2E # drop (nat n) (digits s)) = hd (digits s)"
      by (cases "digits s") (auto simp add: take_Cons' )
    with hd_digits [OF assms] e 2 show ?thesis
      by (simp add: format_Decimal layoutSeen_def)
  next
    case 3
    then show ?thesis
      by (simp add: format_Leading0 layoutSeen_def)
  next
    case 4
    then show ?thesis
      by (simp add: format_Exponent layoutSeen_def)
  qed
qed


lemma significand_inj:
  assumes "significand s = significand s'"
  shows "s = s'"
proof -
  let ?ds = "digits s" and ?ds' = "digits s'"
  have ne: "?ds \<noteq> []" "?ds' \<noteq> []"
    by (simp_all add: digits_not_Nil)
  have dot: "(0x2E :: 16 word) \<notin> set ?ds" "(0x2E :: 16 word) \<notin> set ?ds'"
    by simp_all
  have "?ds = ?ds'"
  proof (cases "length ?ds = 1")
    case True
    show ?thesis
    proof (cases "length ?ds' = 1")
      case True
      with \<open>length ?ds = 1\<close> assms show ?thesis
        by (simp add: significand_def)
    next
      case False
      with \<open>length ?ds = 1\<close> assms have "?ds = hd ?ds' # 0x2E # tl ?ds'"
        by (simp add: significand_def)
      then have "(0x2E :: 16 word) \<in> set ?ds"
        by (metis list.set_intros(1) list.set_intros(2))
      with dot show ?thesis by simp
    qed
  next
    case False
    show ?thesis
    proof (cases "length ?ds' = 1")
      case True
      with False assms have "?ds' = hd ?ds # 0x2E # tl ?ds"
        by (simp add: significand_def)
      then have "(0x2E :: 16 word) \<in> set ?ds'"
        by (metis list.set_intros(1) list.set_intros(2))
      with dot show ?thesis by simp
    next
      case f: False
      with False assms have "hd ?ds = hd ?ds'" "tl ?ds = tl ?ds'"
        by (simp_all add: significand_def)
      with ne show ?thesis
        by (metis list.collapse)
    qed
  qed
  then show ?thesis by (rule digits_inj)
qed

lemma denoted_Integral:
  assumes "layoutOf s n = Integral"
  shows "denoted s n = of_nat (valueOf (formatDigits s n))"
proof -
  from assms have k: "int (length (digits s)) \<le> n"
    by (auto simp add: layoutOf_def split: if_splits)
  have "valueOf (formatDigits s n) = s * 10 ^ nat (n - int (length (digits s)))"
    unfolding format_Integral [OF assms] valueOf_zeros by (simp only: valueOf_digits)
  moreover from k have "denoted s n = of_nat s * 10 ^ nat (n - int (length (digits s)))"
    by (simp add: denoted_def power_int_def)
  ultimately show ?thesis by simp
qed

lemma formatDigits_inj:
  assumes "0 < s" and "0 < s'" and eq: "formatDigits s n = formatDigits s' n'"
  shows "denoted s n = denoted s' n'"
proof -
  from eq have "layoutSeen (formatDigits s n) = layoutSeen (formatDigits s' n')" by simp
  with assms(1,2) have same: "layoutOf s' n' = layoutOf s n"
    by (simp add: layout_seen)
  consider "layoutOf s n = Integral" | "layoutOf s n = Decimal" | "layoutOf s n = Leading0"
    | "layoutOf s n = Exponent"
    using layoutOf_cases by blast
  then show ?thesis
  proof cases
    case 1
    with same have p1: "layoutOf s' n' = Integral" by simp
    from eq show ?thesis
      by (simp add: denoted_Integral [OF 1] denoted_Integral [OF p1])
  next
    case 2
    with same have p2: "layoutOf s' n' = Decimal" by simp
    from 2 have n: "0 < n" "nat n < length (digits s)"
      by (auto simp add: layoutOf_def split: if_splits)
    from p2 have n': "0 < n'" "nat n' < length (digits s')"
      by (auto simp add: layoutOf_def split: if_splits)
    have d: "(0x2E :: 16 word) \<notin> set (take (nat n) (digits s))"
        "(0x2E :: 16 word) \<notin> set (take (nat n') (digits s'))"
      using no_dot_in_digits [of s] no_dot_in_digits [of s'] by (auto dest: in_set_takeD)
    from eq have "take (nat n) (digits s) @ 0x2E # drop (nat n) (digits s) =
        take (nat n') (digits s') @ 0x2E # drop (nat n') (digits s')"
      by (simp only: format_Decimal [OF 2] format_Decimal [OF p2])
    from split_at_separator [OF d this]
    have t: "take (nat n) (digits s) = take (nat n') (digits s')"
      and r: "drop (nat n) (digits s) = drop (nat n') (digits s')"
      by simp_all
    from t have "length (take (nat n) (digits s)) = length (take (nat n') (digits s'))" by simp
    with n n' have "n = n'" by simp
    moreover from t r have "digits s = digits s'"
      by (metis append_take_drop_id)
    then have "s = s'" by (rule digits_inj)
    ultimately show ?thesis by simp
  next
    case 3
    with same have p3: "layoutOf s' n' = Leading0" by simp
    from 3 have n: "n \<le> 0"
      by (auto simp add: layoutOf_def split: if_splits)
    from p3 have n': "n' \<le> 0"
      by (auto simp add: layoutOf_def split: if_splits)
    from eq have "replicate (nat (- n)) 0x30 @ digits s = replicate (nat (- n')) 0x30 @ digits s'"
      by (simp add: format_Leading0 [OF 3] format_Leading0 [OF p3])
    from zeros_then_digits [OF this digits_not_Nil digits_not_Nil hd_digits [OF assms(1)]
        hd_digits [OF assms(2)]]
    have "nat (- n) = nat (- n')" and "digits s = digits s'"
      by simp_all
    with n n' have "n = n'" and "s = s'"
      by (simp_all add: digits_inj)
    then show ?thesis by simp
  next
    case 4
    with same have p4: "layoutOf s' n' = Exponent" by simp
    from 4 have n: "n < - 5 \<or> 21 < n"
      by (auto simp add: layoutOf_def split: if_splits)
    from p4 have n': "n' < - 5 \<or> 21 < n'"
      by (auto simp add: layoutOf_def split: if_splits)
    from eq have "significand s @ 0x65 # (if n < 0 then 0x2D else 0x2B) # digits (nat \<bar>n - 1\<bar>) =
        significand s' @ 0x65 # (if n' < 0 then 0x2D else 0x2B) # digits (nat \<bar>n' - 1\<bar>)"
      by (simp only: format_Exponent [OF 4] format_Exponent [OF p4])
    from split_at_separator [OF no_e_in_significand no_e_in_significand this]
    have m: "significand s = significand s'"
      and sg: "(if n < 0 then 0x2D else 0x2B :: 16 word) = (if n' < 0 then 0x2D else 0x2B)"
      and e: "digits (nat \<bar>n - 1\<bar>) = digits (nat \<bar>n' - 1\<bar>)"
      by simp_all
    from m have "s = s'" by (rule significand_inj)
    moreover from sg have "n < 0 \<longleftrightarrow> n' < 0"
      by (simp split: if_splits)
    moreover from e have "nat \<bar>n - 1\<bar> = nat \<bar>n' - 1\<bar>" by (rule digits_inj)
    ultimately have "s = s'" and "n = n'" using n n' by auto
    then show ?thesis by simp
  qed
qed


lemma format_first:
  assumes "0 < s"
  shows "formatDigits s n \<noteq> [] \<and> formatDigits s n \<noteq> [0x30] \<and>
     48 \<le> unat (hd (formatDigits s n)) \<and> unat (hd (formatDigits s n)) \<le> 57"
proof -
  have h: "hd (digits s) \<in> set (digits s)"
    by (simp add: digits_not_Nil)
  note r = digits_range [OF h]
  consider "layoutOf s n = Integral" | "layoutOf s n = Decimal" | "layoutOf s n = Leading0"
    | "layoutOf s n = Exponent"
    using layoutOf_cases by blast
  then show ?thesis
  proof cases
    case 1
    have "digits s @ replicate (nat (n - int (length (digits s)))) 0x30 \<noteq> [0x30]"
    proof
      assume "digits s @ replicate (nat (n - int (length (digits s)))) 0x30 = [0x30]"
      then have "hd (digits s @ replicate (nat (n - int (length (digits s)))) 0x30) = 0x30"
        by simp
      with hd_digits [OF assms] show False
        by (simp add: digits_not_Nil)
    qed
    with r show ?thesis
      by (simp add: format_Integral [OF 1] digits_not_Nil)
  next
    case 2
    then have "0 < n"
      by (auto simp add: layoutOf_def split: if_splits)
    with digits_not_Nil [of s]
    have "hd (take (nat n) (digits s) @ 0x2E # drop (nat n) (digits s)) = hd (digits s)"
      by (cases "digits s") (auto simp add: take_Cons')
    with r hd_digits [OF assms] show ?thesis
      by (auto simp add: format_Decimal [OF 2])
  next
    case 3
    then show ?thesis
      by (simp add: format_Leading0)
  next
    case 4
    have "hd (significand s) = hd (digits s)" "significand s \<noteq> []"
      by (simp_all add: significand_def digits_not_Nil)
    with r show ?thesis
      by (simp add: format_Exponent [OF 4] hd_append)
  qed
qed

lemma kind_seen:
  assumes "digitsOk rounded shortest x"
  shows "kindSeen (Number_toString shortest x) = kindOf x"
proof (cases x)
  case (Finite q)
  show ?thesis
  proof (cases "q = 0")
    case True
    with Finite show ?thesis
      by (simp add: Number_toString_def kindOf_def kindSeen_def lit_def)
  next
    case False
    obtain s n where sn: "shortest \<bar>q\<bar> = (s, n)"
      by (cases "shortest \<bar>q\<bar>")
    with assms Finite False have "0 < s"
      by (simp add: digitsOk_def)
    note f = format_first [OF this, of n]
    show ?thesis
    proof (cases "q < 0")
      case True
      with sn have sn': "shortest (- q) = (s, n)" by simp
      from f have "hd (formatDigits s n) \<noteq> 0x49"
        by auto
      with Finite False True sn' show ?thesis
        by (simp add: Number_toString_def kindOf_def kindSeen_def)
    next
      case pos: False
      with False sn have sn': "shortest q = (s, n)" by simp
      from f have "hd (formatDigits s n) \<noteq> 0x49" "hd (formatDigits s n) \<noteq> 0x4E"
          "hd (formatDigits s n) \<noteq> 0x2D"
        by auto
      with f Finite False pos sn' show ?thesis
        by (simp add: Number_toString_def kindOf_def kindSeen_def)
    qed
  qed
qed (simp_all add: Number_toString_def kindOf_def kindSeen_def lit_def)

lemma Number_toString_inj:
  assumes x: "digitsOk rounded shortest x" and y: "digitsOk rounded shortest y"
    and eq: "Number_toString shortest x = Number_toString shortest y"
  shows "SameValueZero x y"
proof -
  from eq have "kindSeen (Number_toString shortest x) = kindSeen (Number_toString shortest y)"
    by simp
  then have same: "kindOf x = kindOf y"
    by (simp add: kind_seen [OF x] kind_seen [OF y])
  show ?thesis
  proof (cases x)
    case (Finite q)
    show ?thesis
    proof (cases "q = 0")
      case True
      with Finite same show ?thesis
        by (cases y) (auto simp add: kindOf_def SameValueZero_def isZero_def split: if_splits)
    next
      case False
      with Finite same obtain q' where q': "y = Finite q'" "q' \<noteq> 0" "q < 0 \<longleftrightarrow> q' < 0"
        by (cases y) (auto simp add: kindOf_def split: if_splits)
      obtain s n where sn: "shortest \<bar>q\<bar> = (s, n)"
        by (cases "shortest \<bar>q\<bar>")
      obtain s' n' where sn': "shortest \<bar>q'\<bar> = (s', n')"
        by (cases "shortest \<bar>q'\<bar>")
      from x Finite False sn have s: "0 < s" "rounded (denoted s n) = Finite \<bar>q\<bar>"
        by (simp_all add: digitsOk_def)
      from y q' sn' have s': "0 < s'" "rounded (denoted s' n') = Finite \<bar>q'\<bar>"
        by (simp_all add: digitsOk_def)
      have "formatDigits s n = formatDigits s' n'"
      proof (cases "q < 0")
        case True
        with q' sn sn' have "shortest (- q) = (s, n)" "shortest (- q') = (s', n')" by simp_all
        with eq Finite q' False True show ?thesis
          by (simp add: Number_toString_def)
      next
        case pos: False
        with q' False sn sn' have "shortest q = (s, n)" "shortest q' = (s', n')" by simp_all
        with eq Finite q' False pos show ?thesis
          by (simp add: Number_toString_def)
      qed
      from formatDigits_inj [OF s(1) s'(1) this] s(2) s'(2) have "\<bar>q\<bar> = \<bar>q'\<bar>"
        by simp
      with q'(3) have "q = q'"
        by (simp add: abs_if split: if_splits)
      with Finite q' show ?thesis
        by (simp add: SameValueZero_def)
    qed
  qed (use same in \<open>cases y; auto simp add: kindOf_def SameValueZero_def isZero_def split: if_splits\<close>)+
qed

lemma Number_toString_same:
  "SameValueZero x y \<Longrightarrow> Number_toString shortest x = Number_toString shortest y"
  by (auto simp add: SameValueZero_def isZero_def Number_toString_def)




lemma brokenBar_not_digit: "brokenBar \<notin> set (digits n)"
  by (rule not_digit) (simp add: brokenBar_def)

lemma brokenBar_not_in_format: "brokenBar \<notin> set (formatDigits s n)"
proof -
  have d: "brokenBar \<notin> set (digits m)" for m
    by (rule brokenBar_not_digit)
  have c: "brokenBar \<noteq> 0x30" "brokenBar \<noteq> 0x2E" "brokenBar \<noteq> 0x65" "brokenBar \<noteq> 0x2D"
      "brokenBar \<noteq> 0x2B"
    by (simp_all add: brokenBar_def)
  have h: "brokenBar \<noteq> hd (digits s)"
    using d [of s] digits_not_Nil [of s] by (metis list.set_sel(1))
  have t: "brokenBar \<notin> set (tl (digits s))"
    using d [of s] digits_not_Nil [of s] by (metis list.set_sel(2))
  have k: "brokenBar \<notin> set (take i (digits s))" "brokenBar \<notin> set (drop i (digits s))" for i
    using d [of s] by (auto dest: in_set_takeD in_set_dropD)
  from d c h t k show ?thesis
    by (simp add: formatDigits_def Let_def)
qed

lemma brokenBar_not_in_number: "brokenBar \<notin> set (Number_toString shortest x)"
proof -
  have "brokenBar \<notin> set (case p of (s, n) \<Rightarrow> formatDigits s n)" for p
    by (cases p) (simp add: brokenBar_not_in_format)
  then show ?thesis
    by (cases x) (simp_all add: Number_toString_def lit_def brokenBar_def)
qed

lemma String_replace_absent: "c \<notin> set s \<Longrightarrow> String_replace c rep s = s"
  by (induction s) auto

lemma MarkerSeverity_toString_eq:
  "MarkerSeverity_toString localize a =
     (case a of
        Error \<Rightarrow> localize ''sev.error'' (lit ''Error'')
      | Warning \<Rightarrow> localize ''sev.warning'' (lit ''Warning'')
      | Info \<Rightarrow> localize ''sev.info'' (lit ''Info'')
      | Hint \<Rightarrow> [])"
  by (cases a) (simp_all add: MarkerSeverity_toString_def displayStrings_def)

lemma makeKey_safe:
  assumes "safeMarker md"
  shows "\<exists>src cd sev n1 n2 n3 n4.
     source md = Some src \<and> code md = Some cd \<and> severity md = Some sev \<and>
     startLineNumber md = Some n1 \<and> startColumn md = Some n2 \<and>
     endLineNumber md = Some n3 \<and> endColumn md = Some n4 \<and>
     brokenBar \<notin> set src \<and> brokenBar \<notin> set cd \<and> brokenBar \<notin> set (message md) \<and>
     (sev = Error \<or> sev = Warning \<or> sev = Info) \<and>
     makeKey localize shortest md =
       brokenBar # src @ brokenBar # cd @ brokenBar # MarkerSeverity_toString localize sev @
       brokenBar # message md @ brokenBar # Number_toString shortest n1 @
       brokenBar # Number_toString shortest n2 @ brokenBar # Number_toString shortest n3 @
       brokenBar # Number_toString shortest n4 @ [brokenBar]"
proof -
  from assms obtain src cd sev n1 n2 n3 n4 where
    f: "source md = Some src" "code md = Some cd" "severity md = Some sev"
       "startLineNumber md = Some n1" "startColumn md = Some n2"
       "endLineNumber md = Some n3" "endColumn md = Some n4"
    and g: "safeString src" "safeString cd" "safeString (message md)"
       "sev = Error \<or> sev = Warning \<or> sev = Info"
    by (auto simp add: safeMarker_def split: option.splits)
  from g have h: "brokenBar \<notin> set src" "brokenBar \<notin> set cd" "brokenBar \<notin> set (message md)"
      "src \<noteq> []" "cd \<noteq> []" "message md \<noteq> []"
    by (simp_all add: safeString_def)
  have "makeKey localize shortest md =
       brokenBar # src @ brokenBar # cd @ brokenBar # MarkerSeverity_toString localize sev @
       brokenBar # message md @ brokenBar # Number_toString shortest n1 @
       brokenBar # Number_toString shortest n2 @ brokenBar # Number_toString shortest n3 @
       brokenBar # Number_toString shortest n4 @ [brokenBar]"
    by (simp add: makeKey_def f h String_replace_absent emptyString_def)
  with f g(4) h(1-3) show ?thesis by blast
qed

lemma severity_name_free:
  "severityNamesOk localize \<Longrightarrow> sev = Error \<or> sev = Warning \<or> sev = Info \<Longrightarrow>
   brokenBar \<notin> set (MarkerSeverity_toString localize sev)"
  by (auto simp add: severityNamesOk_def MarkerSeverity_toString_eq)

lemma severity_name_inj:
  "severityNamesOk localize \<Longrightarrow> sev = Error \<or> sev = Warning \<or> sev = Info \<Longrightarrow>
   sev' = Error \<or> sev' = Warning \<or> sev' = Info \<Longrightarrow>
   MarkerSeverity_toString localize sev = MarkerSeverity_toString localize sev' \<Longrightarrow> sev = sev'"
  by (auto simp add: severityNamesOk_def MarkerSeverity_toString_eq)

lemmas marker_eval = makeKey_def exampleMarker_def emptyString_def MarkerSeverity_toString_def
  displayStrings_def untranslated_def Number_toString_def formatDigits_def integerDigits_def
  digits.simps digit_def lit_def brokenBar_def

lemmas positions_eval = positionsOk_def digitsOk_def exactly_def denoted_def integerDigits_def
  exampleMarker_def digits.simps digit_def

lemma replicate_numeral_Cons: "replicate (numeral m) (c :: 16 word) = c # replicate (pred_numeral m) c"
  by (simp add: numeral_eq_Suc)

lemma formatDigits_examples:
  "formatDigits 12 2 = lit ''12''"
  "formatDigits 1 3 = lit ''100''"
  "formatDigits 12345 3 = lit ''123.45''"
  "formatDigits 5 0 = lit ''0.5''"
  "formatDigits 12345 (- 5) = lit ''0.0000012345''"
  "formatDigits 12345 (- 6) = lit ''1.2345e-7''"
  "formatDigits 1 21 = lit ''100000000000000000000''"
  "formatDigits 1 22 = lit ''1e+21''"
  "formatDigits 12345 22 = lit ''1.2345e+21''"
  by (simp_all add: formatDigits_def digits.simps digit_def lit_def replicate_numeral_Cons)

lemma Number_toString_examples:
  "Number_toString shortest NaN = lit ''NaN''"
  "Number_toString shortest NegZero = lit ''0''"
  "Number_toString shortest (Finite 0) = lit ''0''"
  "Number_toString shortest PosInfinity = lit ''Infinity''"
  "Number_toString shortest NegInfinity = lit ''-Infinity''"
  "Number_toString integerDigits (Finite (10 ^ 21)) = lit ''1e+21''"
  "Number_toString integerDigits (Finite (- 120)) = lit ''-120''"
  by (simp_all add: Number_toString_def formatDigits_def integerDigits_def digits.simps digit_def lit_def)

section \<open>Lemmas about the languages registry\<close>

lemma identifier_merge_steps [simp]:
  "languageIdentifier (mergeMimetypes r lang) = languageIdentifier r"
  "languageIdentifier (mergeExtensions r lang) = languageIdentifier r"
  "languageIdentifier (mergeFilenames r lang) = languageIdentifier r"
  "languageIdentifier (mergeAliases r lang) = languageIdentifier r"
  "languageIdentifier (mergeName r lang) = languageIdentifier r"
  "languageIdentifier (mergeConfiguration r lang) = languageIdentifier r"
  by (simp_all add: mergeMimetypes_def mergeExtensions_def mergeFilenames_def mergeAliases_def
        mergeName_def mergeConfiguration_def Let_def split: option.splits list.splits)

lemma identifier_mergeLanguage [simp]: "languageIdentifier (mergeLanguage r lang) = languageIdentifier r"
  by (simp add: mergeLanguage_def)

lemma registerLanguage_known:
  "languages reg (lang_id lang) = Some r0 \<Longrightarrow>
   registerLanguage lang reg = reg\<lparr>languages := (languages reg)(lang_id lang \<mapsto> mergeLanguage r0 lang)\<rparr>"
  by (simp add: registerLanguage_def hasOwnProperty_def)

lemma registerLanguage_new:
  "languages reg (lang_id lang) = None \<Longrightarrow>
   registerLanguage lang reg =
     reg\<lparr>nextLanguageId := nextLanguageId reg + 1,
         languageIds := (languageIds reg)(nextLanguageId reg \<mapsto> lang_id lang),
         languages := setProperty (languages reg) (lang_id lang)
            (mergeLanguage (newResolvedLanguage (lang_id lang) (nextLanguageId reg)) lang)\<rparr>"
  by (simp add: registerLanguage_def hasOwnProperty_def Let_def newResolvedLanguage_def)

lemma registerLanguage_inv:
  assumes "registry_inv reg"
  shows "registry_inv (registerLanguage lang reg)"
proof (cases "languages reg (lang_id lang)")
  case (Some r0)
  from assms Some have r0: "language (languageIdentifier r0) = lang_id lang"
      "1 \<le> lid (languageIdentifier r0)" "lid (languageIdentifier r0) < nextLanguageId reg"
      "languageIds reg (lid (languageIdentifier r0)) = Some (lang_id lang)"
    by (simp_all add: registry_inv_def)
  show ?thesis
    unfolding registerLanguage_known [OF Some] registry_inv_def
    using assms r0 by (auto simp add: registry_inv_def)
next
  case None
  let ?n = "nextLanguageId reg"
  let ?reg' = "registerLanguage lang reg"
  have n': "nextLanguageId ?reg' = ?n + 1"
    and ids': "languageIds ?reg' = (languageIds reg)(?n \<mapsto> lang_id lang)"
    and langs': "languages ?reg' = setProperty (languages reg) (lang_id lang)
            (mergeLanguage (newResolvedLanguage (lang_id lang) ?n) lang)"
    by (simp_all add: registerLanguage_new [OF None])
  have old: "lid (languageIdentifier r) \<noteq> ?n" if "languages reg k = Some r" for k r
    using assms that by (fastforce simp add: registry_inv_def)
  have A: "language (languageIdentifier r) = k \<and> 1 \<le> lid (languageIdentifier r) \<and>
        lid (languageIdentifier r) < nextLanguageId ?reg' \<and>
        languageIds ?reg' (lid (languageIdentifier r)) = Some k"
    if h: "languages ?reg' k = Some r" for k r
  proof (cases "k = lang_id lang \<and> lang_id lang \<noteq> lit ''__proto__''")
    case True
    with h have "r = mergeLanguage (newResolvedLanguage (lang_id lang) ?n) lang"
      by (simp add: langs' setProperty_def)
    then have "languageIdentifier r = \<lparr>language = lang_id lang, lid = ?n\<rparr>"
      by (simp add: newResolvedLanguage_def)
    with True assms show ?thesis
      by (simp add: registry_inv_def n' ids')
  next
    case False
    with h have o: "languages reg k = Some r"
      by (auto simp add: langs' setProperty_def split: if_splits)
    with assms have "language (languageIdentifier r) = k \<and> 1 \<le> lid (languageIdentifier r) \<and>
        lid (languageIdentifier r) < ?n \<and> languageIds reg (lid (languageIdentifier r)) = Some k"
      by (simp add: registry_inv_def)
    with old [OF o] show ?thesis
      by (simp add: n' ids')
  qed
  have B: "m < nextLanguageId ?reg'" if "languageIds ?reg' m = Some k" for m k
    using that assms by (auto simp add: n' ids' registry_inv_def less_Suc_eq split: if_splits)
  have C: "1 \<le> nextLanguageId ?reg'"
    by (simp add: n')
  from A B C show ?thesis
    unfolding registry_inv_def by blast
qed

lemma registerLanguages_inv: "registry_inv reg \<Longrightarrow> registry_inv (registerLanguages desc reg)"
proof -
  have "registry_inv reg \<Longrightarrow> registry_inv (fold registerLanguage desc reg)"
    by (induction desc arbitrary: reg) (simp_all add: registerLanguage_inv)
  then show "registry_inv reg \<Longrightarrow> registry_inv (registerLanguages desc reg)"
    by (simp add: registerLanguages_def)
qed

lemma constructor_inv: "registry_inv (LanguagesRegistry_constructor useModesRegistry modesLanguages)"
proof -
  have "registry_inv \<lparr>nextLanguageId = 1, languages = Map.empty, languageIds = Map.empty\<rparr>"
    by (simp add: registry_inv_def)
  then show ?thesis
    by (simp add: LanguagesRegistry_constructor_def Let_def registerLanguages_inv)
qed

lemma reachable_inv:
  "registry_inv (fold registerLanguages batches (LanguagesRegistry_constructor useModesRegistry modesLanguages))"
proof -
  have "registry_inv reg \<Longrightarrow> registry_inv (fold registerLanguages batches reg)" for reg
    by (induction batches arbitrary: reg) (simp_all add: registerLanguages_inv)
  then show ?thesis
    by (simp add: constructor_inv)
qed

lemma proto_never_own:
  assumes "languages reg (lit ''__proto__'') = None"
  shows "languages (registerLanguage lang reg) (lit ''__proto__'') = None"
proof (cases "languages reg (lang_id lang)")
  case None
  with assms show ?thesis
    by (simp add: registerLanguage_new setProperty_def)
next
  case (Some r0)
  with assms show ?thesis
    by (auto simp add: registerLanguage_known)
qed

lemmas registry_eval = emptyRegistry_def LanguagesRegistry_constructor_def registerLanguages_def
  registerLanguage_def hasOwnProperty_def setProperty_def plainLanguage_def mergeLanguage_def
  mergeMimetypes_def mergeExtensions_def mergeFilenames_def mergeAliases_def mergeName_def
  mergeConfiguration_def langAliasesOf_def falsy_def getLanguageIdentifier_def lit_def Let_def

section \<open>Lemmas about a scheduled flush\<close>

lemma sameRenderInputs_parts:
  assumes "sameRenderInputs s s'"
  shows "shouldRender s' = shouldRender s" and "prepare_thr s' = prepare_thr s"
    and "render_thr s' = render_thr s" and "viewLines_shouldRender s' = viewLines_shouldRender s"
    and "newViewportData s' = newViewportData s"
proof -
  from assms have f: "partStore s' = partStore s" "viewLines s' = viewLines s"
      "cursorViewSelections s' = cursorViewSelections s" "linesViewportData s' = linesViewportData s"
      "whitespaceViewportData s' = whitespaceViewportData s"
    by (simp_all add: sameRenderInputs_def)
  show "shouldRender s' = shouldRender s"
    by (rule ext) (simp add: shouldRender_def f)
  show "prepare_thr s' = prepare_thr s"
    by (rule ext) (simp add: prepare_thr_def f)
  show "render_thr s' = render_thr s"
    by (rule ext) (simp add: render_thr_def f)
  show "viewLines_shouldRender s' = viewLines_shouldRender s"
    by (simp add: viewLines_shouldRender_def f)
  show "newViewportData s' = newViewportData s"
    by (simp add: newViewportData_def f)
qed

lemma sameRenderInputs_passEvents:
  assumes "sameRenderInputs s s'"
  shows "passEvents s' = passEvents s"
proof -
  note p = sameRenderInputs_parts [OF assms]
  from assms have f: "viewParts s' = viewParts s" "viewLines s' = viewLines s" "inDOM s' = inDOM s"
      "contentWidgets s' = contentWidgets s" "onBeforeRender_throws s' = onBeforeRender_throws s"
      "linesViewportData s' = linesViewportData s"
    by (simp_all add: sameRenderInputs_def)
  have 1: "passCutShort s' = passCutShort s"
    by (simp only: passCutShort_def p f)
  have 2: "passDirtyParts s' = passDirtyParts s"
    by (simp only: passDirtyParts_def p f)
  have 3: "viewLinesEvents vd s' = viewLinesEvents vd s" for vd
    by (simp only: viewLinesEvents_def p f)
  have 4: "partsEvents ctx s' ps = partsEvents ctx s ps" for ctx ps
    by (simp only: partsEvents_def p)
  show ?thesis
    by (simp only: passEvents_def 1 2 3 4 p f)
qed

lemma scheduleRender_sameRenderInputs: "sameRenderInputs s (scheduleRender s)"
  by (simp add: sameRenderInputs_def scheduleRender_def runAtThisOrScheduleAtNextAnimationFrame_def)

lemma hostFire_scheduleRender_events:
  assumes "scheduler_inv s"
  shows "eventsSince s (hostFire (scheduleRender s)) = passEvents s"
proof -
  let ?t = "(scheduleRender s)\<lparr>hostQueue := [], renderAnimationFrame := None\<rparr>"
  have inv: "scheduler_inv (scheduleRender s)"
    using assms by (rule scheduleRender_inv)
  have pend: "renderAnimationFrame (scheduleRender s) \<noteq> None"
    by (rule scheduleRender_sets_pending)
  have "sameRenderInputs s ?t"
    using scheduleRender_sameRenderInputs [of s] by (simp add: sameRenderInputs_def)
  then have p: "passEvents ?t = passEvents s"
    by (rule sameRenderInputs_passEvents)
  have t: "trace ?t = trace s"
    by simp
  show ?thesis
    by (simp only: hostFire_pending [OF inv pend] eventsSince_def renderNow_trace p t
          append_eq_conv_conj drop_append length_append) simp
qed

section \<open>The properties\<close>

subsection \<open>The render scheduler, the render pass and \<open>View.change\<close>\<close>

text \<open>
  C1 (render-request coalescing). In a state that satisfies the scheduler's invariant,
  during any sequence of \<open>N \<ge> 1\<close> calls of \<open>_scheduleRender\<close> with no flush in between the
  host never holds more than one callback of the view, after the calls it holds exactly
  one, and when the host fires, \<open>_actualRender\<close> is invoked exactly once and nothing stays
  queued. A call of \<open>_scheduleRender\<close> while a frame is pending leaves the state as it is.
\<close>

theorem render_request_coalescing:
  assumes "scheduler_inv s" and "1 \<le> N"
  shows "(\<forall>k\<le>N. length (hostQueue ((scheduleRender ^^ k) s)) \<le> 1) \<and>
         length (hostQueue ((scheduleRender ^^ N) s)) = 1 \<and>
         passes (hostFire ((scheduleRender ^^ N) s)) = passes s + 1 \<and>
         hostQueue (hostFire ((scheduleRender ^^ N) s)) = [] \<and>
         (\<forall>t :: 'z view. renderAnimationFrame t \<noteq> None \<longrightarrow> scheduleRender t = t)"
proof -
  have inv1: "scheduler_inv (scheduleRender s)"
    using assms(1) by (rule scheduleRender_inv)
  have pend: "renderAnimationFrame (scheduleRender s) \<noteq> None"
    by (rule scheduleRender_sets_pending)
  have len1: "length (hostQueue (scheduleRender s)) = 1"
    using inv1 pend by (auto simp add: scheduler_inv_def)
  have a: "\<forall>k\<le>N. length (hostQueue ((scheduleRender ^^ k) s)) \<le> 1"
  proof (intro allI impI)
    fix k assume "k \<le> N"
    show "length (hostQueue ((scheduleRender ^^ k) s)) \<le> 1"
    proof (cases "k = 0")
      case True
      with assms(1) show ?thesis by (simp add: scheduler_inv_def split: option.splits)
    next
      case False
      then show ?thesis by (simp add: scheduleRender_funpow len1)
    qed
  qed
  have N: "(scheduleRender ^^ N) s = scheduleRender s"
    using assms(2) by (simp add: scheduleRender_funpow)
  have c: "passes (hostFire (scheduleRender s)) = passes s + 1"
    using passes_hostFire_pending [OF inv1 pend] by (simp add: passes_def)
  have d: "hostQueue (hostFire (scheduleRender s)) = []"
    by (simp add: hostFire_pending [OF inv1 pend] renderNow_scheduler)
  show ?thesis
    using a len1 c d by (simp add: N scheduleRender_pending)
qed

theorem render_request_coalescing_witness:
  "scheduler_inv (freshView countingZones) \<and> (1::nat) \<le> 3 \<and>
   length (hostQueue ((scheduleRender ^^ 2) (freshView countingZones))) \<le> 1 \<and>
   length (hostQueue ((scheduleRender ^^ 3) (freshView countingZones))) = 1 \<and>
   passes (hostFire ((scheduleRender ^^ 3) (freshView countingZones))) = 1 \<and>
   renderAnimationFrame (scheduleRender (freshView countingZones)) \<noteq> None \<and>
   scheduleRender (scheduleRender (freshView countingZones)) = scheduleRender (freshView countingZones)"
proof -
  have i: "scheduler_inv (freshView countingZones)"
    by (simp add: scheduler_inv_def freshView_def)
  have p: "passes (freshView countingZones) = 0"
    by (simp add: passes_def freshView_def)
  have q: "renderAnimationFrame (scheduleRender (freshView countingZones)) \<noteq> None"
    by (rule scheduleRender_sets_pending)
  have r: "(\<forall>k\<le>3. length (hostQueue ((scheduleRender ^^ k) (freshView countingZones))) \<le> 1) \<and>
      length (hostQueue ((scheduleRender ^^ 3) (freshView countingZones))) = 1 \<and>
      passes (hostFire ((scheduleRender ^^ 3) (freshView countingZones))) = passes (freshView countingZones) + 1 \<and>
      hostQueue (hostFire ((scheduleRender ^^ 3) (freshView countingZones))) = [] \<and>
      (\<forall>t :: nat view. renderAnimationFrame t \<noteq> None \<longrightarrow> scheduleRender t = t)"
    by (rule render_request_coalescing [OF i]) simp
  from r have k2: "length (hostQueue ((scheduleRender ^^ 2) (freshView countingZones))) \<le> 1"
    by (elim conjE allE [of _ 2]) simp
  from r q have t: "scheduleRender (scheduleRender (freshView countingZones)) =
      scheduleRender (freshView countingZones)"
    by blast
  from r i p q k2 t show ?thesis
    by simp
qed

text \<open>
  C2 (render-pass failure containment). When \<open>_actualRender\<close> throws \<open>e\<close>, from whichever
  call inside it, \<open>_renderNow\<close> returns normally and \<open>e\<close> is appended to the unexpected-error
  sink, once. The pass ends with the call that threw: it is the last call recorded. If that
  call is the \<open>render\<close> of a part, \<open>render\<close> has been invoked on the dirty parts up to that
  part and on none after it; otherwise \<open>render\<close> has been invoked on no part. The
  scheduler's invariant still holds, and a following \<open>_scheduleRender\<close> and host callback
  invoke \<open>_actualRender\<close> once more.
\<close>

theorem render_pass_failure_containment:
  assumes "scheduler_inv s" and "snd (actualRender s) = Some e"
  shows "unexpectedErrors (renderNow s) = unexpectedErrors s @ [e] \<and>
    trace (renderNow s) = trace s @ passTrace s \<and>
    passTrace s \<noteq> [] \<and> callThrows s (last (passTrace s)) e \<and>
    (\<forall>a ctx. last (passTrace s) = Render a ctx \<longrightarrow>
       (\<exists>k<length (passDirtyParts s). passDirtyParts s ! k = a \<and>
          commitsOf (passTrace s) = take (Suc k) (passDirtyParts s))) \<and>
    ((\<forall>a ctx. last (passTrace s) \<noteq> Render a ctx) \<longrightarrow> commitsOf (passTrace s) = []) \<and>
    scheduler_inv (renderNow s) \<and>
    passes (hostFire (scheduleRender (renderNow s))) = passes (renderNow s) + 1"
proof -
  from assms(2) have t: "passThrow s = Some e"
    by (simp add: actualRender_throw)
  have inv: "scheduler_inv (renderNow s)"
    using assms(1) by (rule renderNow_inv)
  have "passes (hostFire (scheduleRender (renderNow s))) = Suc (passes (scheduleRender (renderNow s)))"
    by (rule passes_hostFire_pending [OF scheduleRender_inv [OF inv] scheduleRender_sets_pending])
  then have p: "passes (hostFire (scheduleRender (renderNow s))) = passes (renderNow s) + 1"
    by (simp add: passes_def)
  show ?thesis
    using passEvents_failure [OF t] inv p
    by (simp add: passTrace_eq renderNow_unexpectedErrors t renderNow_trace)
qed

theorem render_pass_failure_containment_witness:
  "scheduler_inv failingB \<and> snd (actualRender failingB) = Some 42 \<and>
   unexpectedErrors (renderNow failingB) = [42] \<and>
   last (passTrace failingB) = Render 3 (RenderingContext (newViewportData failingB)) \<and>
   passDirtyParts failingB = [2, 3, 4] \<and>
   commitsOf (passTrace failingB) = [2, 3] \<and>
   passes (hostFire (scheduleRender (renderNow failingB))) = 2"
proof -
  have i: "scheduler_inv failingB"
    by (simp add: scheduler_inv_def failingB_fields)
  have t: "snd (actualRender failingB) = Some 42"
    by (simp add: actualRender_throw failingB_throw)
  have l: "last (passTrace failingB) = Render 3 (RenderingContext (newViewportData failingB))"
    by (simp add: passTrace_eq failingB_events)
  have c: "commitsOf (passTrace failingB) = [2, 3]"
    by (simp add: passTrace_eq failingB_events)
  have p: "passes (renderNow failingB) = 1"
    by (simp add: passes_renderNow) (simp add: passes_def failingB_fields)
  from render_pass_failure_containment [OF i t] i t l p c show ?thesis
    by (simp add: failingB_fields failingB_dirty)
qed

text \<open>
  C3 (two-phase render discipline). In the calls of one render pass no \<open>prepareRender\<close>
  comes after a \<open>render\<close>, and at every \<open>render\<close> the calls of \<open>prepareRender\<close> made so far
  in the pass are exactly the dirty parts of the pass, in order: prepare has been invoked on
  every dirty part before commit is invoked on any.
\<close>

theorem two_phase_render_discipline:
  "(\<forall>i j. i < j \<and> j < length (passTrace s) \<and> isCommit (passTrace s ! i) \<longrightarrow>
       \<not> isPrepare (passTrace s ! j)) \<and>
   (\<forall>i. i < length (passTrace s) \<and> isCommit (passTrace s ! i) \<longrightarrow>
       preparesOf (take i (passTrace s)) = passDirtyParts s)"
proof -
  from passEvents_split [of s] obtain xs ys where
    "passEvents s = xs @ ys" "commitsOf xs = []" "preparesOf ys = []"
    "commitsOf ys \<noteq> [] \<longrightarrow> preparesOf xs = passDirtyParts s"
    by blast
  then show ?thesis
    unfolding passTrace_eq by (rule two_phase_from_split)
qed

theorem two_phase_render_discipline_witness:
  "(10::nat) < 12 \<and> 12 < length (passTrace allDirty) \<and> isCommit (passTrace allDirty ! 10) \<and>
   \<not> isPrepare (passTrace allDirty ! 12) \<and>
   preparesOf (take 10 (passTrace allDirty)) = passDirtyParts allDirty \<and>
   passDirtyParts allDirty = [2, 3, 4]"
proof -
  have a: "(10::nat) < 12 \<and> 12 < length (passTrace allDirty) \<and> isCommit (passTrace allDirty ! 10)"
    by (simp add: passTrace_eq allDirty_events)
  have b: "10 < length (passTrace allDirty) \<and> isCommit (passTrace allDirty ! 10)"
    by (simp add: passTrace_eq allDirty_events)
  from two_phase_render_discipline [of allDirty] a have "\<not> isPrepare (passTrace allDirty ! 12)"
    by blast
  moreover from two_phase_render_discipline [of allDirty] b
  have "preparesOf (take 10 (passTrace allDirty)) = passDirtyParts allDirty"
    by blast
  ultimately show ?thesis
    using a by (simp add: allDirty_dirty)
qed

text \<open>
  C4 (dirty-set selection and ordering), as amended. \<open>_getViewPartsToRender\<close> returns
  exactly the parts whose \<open>shouldRender()\<close> is true, in the order of registration. A pass
  invokes \<open>render\<close> only on the parts of its last collection and in that order (on a prefix
  of them), and on all of them when the view is in the DOM and no call throws. With
  the view lines clean the last collection is the first one; with the view lines dirty and
  rendered without an exception it is the list \<open>_getViewPartsToRender\<close> returns after that. With
  A, B, C registered in this order, only B dirty and the view lines clean, a flush never
  invokes \<open>render\<close> on A or C; when the view is in the DOM and the calls on B do not throw it
  invokes \<open>render\<close> on B alone, and again on B alone at the next flush once B is dirty again.
\<close>

theorem dirty_set_selection_and_ordering:
  "getViewPartsToRender s = filter (shouldRender s) (viewParts s) \<and>
   (\<exists>k. commitsOf (passTrace s) = take k (passDirtyParts s)) \<and>
   (inDOM s \<and> snd (actualRender s) = None \<longrightarrow> commitsOf (passTrace s) = passDirtyParts s) \<and>
   (\<not> viewLines_shouldRender s \<longrightarrow> passDirtyParts s = getViewPartsToRender s) \<and>
   (viewLines_shouldRender s \<and> renderText_throws (viewLines s) = None \<longrightarrow>
      fst (fst (renderViewLines vd ps s)) = passDirtyParts s) \<and>
   (viewParts s = [A, B, C] \<and> \<not> shouldRender s A \<and> shouldRender s B \<and> \<not> shouldRender s C \<and>
    \<not> viewLines_shouldRender s \<longrightarrow>
      set (commitsOf (passTrace s)) \<subseteq> {B} \<and>
      (inDOM s \<and> onBeforeRender_throws s = None \<and>
       prepareRender_throws (partStore s B) = None \<and> render_throws (partStore s B) = None \<longrightarrow>
         commitsOf (passTrace s) = [B] \<and>
         commitsOf (passTrace (forceShouldRender B (renderNow s))) = [B]))"
proof (intro conjI impI)
  show "getViewPartsToRender s = filter (shouldRender s) (viewParts s)"
    by (rule getViewPartsToRender_filter)
  show "\<exists>k. commitsOf (passTrace s) = take k (passDirtyParts s)"
    unfolding passTrace_eq by (rule commitsOf_passEvents_take)
  show "commitsOf (passTrace s) = passDirtyParts s" if "inDOM s \<and> snd (actualRender s) = None"
    using that passEvents_complete [of s] by (simp add: passTrace_eq actualRender_throw)
  show "passDirtyParts s = getViewPartsToRender s" if "\<not> viewLines_shouldRender s"
    using that by (simp add: passDirtyParts_clean getViewPartsToRender_filter)
  show "fst (fst (renderViewLines vd ps s)) = passDirtyParts s"
    if "viewLines_shouldRender s \<and> renderText_throws (viewLines s) = None"
    using that by (simp add: renderViewLines_eq)
next
  assume h: "viewParts s = [A, B, C] \<and> \<not> shouldRender s A \<and> shouldRender s B \<and>
    \<not> shouldRender s C \<and> \<not> viewLines_shouldRender s"
  then have d: "passDirtyParts s = [B]"
    by (simp add: scenario_dirty)
  from commitsOf_passEvents_take [of s] obtain k where "commitsOf (passEvents s) = take k [B]"
    by (auto simp add: d)
  then show "set (commitsOf (passTrace s)) \<subseteq> {B}"
    using set_take_subset [of k "[B]"] by (simp add: passTrace_eq)
next
  assume h: "viewParts s = [A, B, C] \<and> \<not> shouldRender s A \<and> shouldRender s B \<and>
    \<not> shouldRender s C \<and> \<not> viewLines_shouldRender s"
  assume g: "inDOM s \<and> onBeforeRender_throws s = None \<and>
       prepareRender_throws (partStore s B) = None \<and> render_throws (partStore s B) = None"
  from h g show "commitsOf (passTrace s) = [B]"
    by (simp add: passTrace_eq scenario_flush)
next
  assume h: "viewParts s = [A, B, C] \<and> \<not> shouldRender s A \<and> shouldRender s B \<and>
    \<not> shouldRender s C \<and> \<not> viewLines_shouldRender s"
  assume g: "inDOM s \<and> onBeforeRender_throws s = None \<and>
       prepareRender_throws (partStore s B) = None \<and> render_throws (partStore s B) = None"
  let ?s1 = "renderNow s"
  let ?s2 = "forceShouldRender B ?s1"
  from h have st: "settles s ?s1"
    by (simp add: renderNow_settles)
  from h have ab: "A \<noteq> B" "C \<noteq> B" by auto
  from st h have f1: "\<not> shouldRender ?s1 A" "\<not> shouldRender ?s1 C" "\<not> viewLines_shouldRender ?s1"
    by (auto simp add: settles_def)
  from st have "prepare_thr ?s1 B = prepare_thr s B" "render_thr ?s1 B = render_thr s B"
    by (simp_all add: settles_def)
  with g have thr: "prepareRender_throws (partStore ?s1 B) = None" "render_throws (partStore ?s1 B) = None"
    by (simp_all add: prepare_thr_def render_thr_def)
  have thr2: "prepareRender_throws (partStore ?s2 B) = None" "render_throws (partStore ?s2 B) = None"
    using thr by (simp_all add: forceShouldRender_def)
  have "commitsOf (passEvents ?s2) = [B]"
    using h g ab f1 thr2
    by (intro scenario_flush [of _ A B C])
       (simp_all add: renderNow_fields shouldRender_forceShouldRender)
  then show "commitsOf (passTrace (forceShouldRender B (renderNow s))) = [B]"
    by (simp add: passTrace_eq)
qed

theorem dirty_set_selection_and_ordering_witness:
  "viewParts onlyB = [2, 3, 4] \<and> \<not> shouldRender onlyB 2 \<and> shouldRender onlyB 3 \<and>
   \<not> shouldRender onlyB 4 \<and> \<not> viewLines_shouldRender onlyB \<and> inDOM onlyB \<and>
   snd (actualRender onlyB) = None \<and> onBeforeRender_throws onlyB = None \<and>
   prepareRender_throws (partStore onlyB 3) = None \<and> render_throws (partStore onlyB 3) = None \<and>
   getViewPartsToRender onlyB = [3] \<and> passDirtyParts onlyB = [3] \<and>
   commitsOf (passTrace onlyB) = [3] \<and>
   commitsOf (passTrace (forceShouldRender 3 (renderNow onlyB))) = [3]"
proof -
  have h: "viewParts onlyB = [2, 3, 4] \<and> \<not> shouldRender onlyB 2 \<and> shouldRender onlyB 3 \<and>
      \<not> shouldRender onlyB 4 \<and> \<not> viewLines_shouldRender onlyB"
    by (simp add: pass_eval example_defs)
  have g: "inDOM onlyB \<and> onBeforeRender_throws onlyB = None \<and>
      prepareRender_throws (partStore onlyB 3) = None \<and> render_throws (partStore onlyB 3) = None"
    by (simp add: example_defs)
  have t: "snd (actualRender onlyB) = None"
    by (simp add: actualRender_throw pass_eval example_defs)
  have f: "filter (shouldRender onlyB) (viewParts onlyB) = [3]"
    by (simp add: pass_eval example_defs)
  from dirty_set_selection_and_ordering [where s = onlyB and A = 2 and B = 3 and C = 4] h g t f
  show ?thesis
    by simp
qed

text \<open>
  C4 as stated fails when the view is not in the DOM: with A, B, C registered and only B
  dirty, the flush returns at its first guard and \<open>render\<close> is not invoked on B.
\<close>

theorem dirty_only_B_detached_counterexample:
  "viewParts detachedB = [2, 3, 4] \<and> \<not> shouldRender detachedB 2 \<and> shouldRender detachedB 3 \<and>
   \<not> shouldRender detachedB 4 \<and> \<not> viewLines_shouldRender detachedB \<and>
   passTrace detachedB = [ActualRender] \<and> commitsOf (passTrace detachedB) \<noteq> [3]"
  by (simp add: passTrace_eq pass_eval example_defs)




text \<open>
  C6 (force-render completeness), as amended. If the view is in the DOM and no call of the
  pass throws, \<open>View.render(true, true)\<close> invokes \<open>prepareRender\<close> and then \<open>render\<close> on
  every registered part, in the order of registration, whatever the dirty flags were; and so
  does the flush the host starts after \<open>View.render(false, true)\<close>.
\<close>

theorem force_render_completeness:
  assumes "inDOM s" and "onBeforeRender_throws s = None" and "renderText_throws (viewLines s) = None"
    and "\<forall>a\<in>set (viewParts s). prepareRender_throws (partStore s a) = None \<and>
           render_throws (partStore s a) = None"
  shows "preparesOf (eventsSince s (View_render True True s)) = viewParts s \<and>
         commitsOf (eventsSince s (View_render True True s)) = viewParts s \<and>
         (scheduler_inv s \<longrightarrow>
            preparesOf (eventsSince s (hostFire (View_render False True s))) = viewParts s \<and>
            commitsOf (eventsSince s (hostFire (View_render False True s))) = viewParts s)"
proof -
  have d: "inDOM (forceAll s)" "onBeforeRender_throws (forceAll s) = None"
    using assms(1,2) by (simp_all add: renders_only_fields [OF renders_only_forceAll])
  have t: "passThrow (forceAll s) = None"
    using assms(3,4) d(2)
    by (intro passThrow_None_clean)
       (simp_all add: forceAll_viewLines passDirtyParts_forceAll prepare_thr_def render_thr_def)
  have e: "eventsSince s (View_render True True s) = passEvents (forceAll s)"
    by (simp add: View_render_now eventsSince_def renderNow_trace)
  have c: "commitsOf (passEvents (forceAll s)) = viewParts s \<and>
      preparesOf (passEvents (forceAll s)) = viewParts s"
    using passEvents_complete [OF d(1) t] by (simp add: passDirtyParts_forceAll)
  have f: "eventsSince s (hostFire (View_render False True s)) = passEvents (forceAll s)"
    if "scheduler_inv s"
  proof -
    have i: "scheduler_inv (forceAll s)"
      using that by (simp add: scheduler_inv_def renders_only_fields [OF renders_only_forceAll])
    have v: "View_render False True s = scheduleRender (forceAll s)"
      by (simp add: View_render_def forceAll_def Let_def)
    have "eventsSince s (hostFire (View_render False True s)) =
        eventsSince (forceAll s) (hostFire (scheduleRender (forceAll s)))"
      by (simp add: v eventsSince_def)
    then show ?thesis
      by (simp add: hostFire_scheduleRender_events [OF i])
  qed
  from c e f show ?thesis
    by simp
qed

theorem force_render_completeness_witness:
  "inDOM exampleABC \<and> onBeforeRender_throws exampleABC = None \<and>
   renderText_throws (viewLines exampleABC) = None \<and>
   viewParts exampleABC = [2, 3, 4] \<and>
   prepareRender_throws (partStore exampleABC 2) = None \<and> render_throws (partStore exampleABC 2) = None \<and>
   prepareRender_throws (partStore exampleABC 3) = None \<and> render_throws (partStore exampleABC 3) = None \<and>
   prepareRender_throws (partStore exampleABC 4) = None \<and> render_throws (partStore exampleABC 4) = None \<and>
   \<not> shouldRender exampleABC 2 \<and> \<not> shouldRender exampleABC 3 \<and> \<not> shouldRender exampleABC 4 \<and>
   preparesOf (eventsSince exampleABC (View_render True True exampleABC)) = [2, 3, 4] \<and>
   commitsOf (eventsSince exampleABC (View_render True True exampleABC)) = [2, 3, 4] \<and>
   scheduler_inv exampleABC \<and>
   commitsOf (eventsSince exampleABC (hostFire (View_render False True exampleABC))) = [2, 3, 4]"
proof -
  have h: "inDOM exampleABC" "onBeforeRender_throws exampleABC = None"
      "renderText_throws (viewLines exampleABC) = None"
      "\<forall>a\<in>set (viewParts exampleABC). prepareRender_throws (partStore exampleABC a) = None \<and>
         render_throws (partStore exampleABC a) = None"
    by (simp_all add: example_defs)
  have c: "\<not> shouldRender exampleABC 2 \<and> \<not> shouldRender exampleABC 3 \<and> \<not> shouldRender exampleABC 4"
    by (simp add: example_defs shouldRender_def)
  have v: "viewParts exampleABC = [2, 3, 4]"
    by (simp add: example_defs)
  have i: "scheduler_inv exampleABC"
    by (simp add: scheduler_inv_def example_defs)
  from force_render_completeness [OF h] h c i show ?thesis
    by (simp add: v)
qed

text \<open>
  C6 as stated fails when the view is not in the DOM: \<open>View.render(true, true)\<close> marks
  every part dirty and the flush returns at its first guard, rendering no part.
\<close>

theorem force_render_detached_counterexample:
  "viewParts detachedABC = [2, 3, 4] \<and>
   eventsSince detachedABC (View_render True True detachedABC) = [ActualRender] \<and>
   commitsOf (eventsSince detachedABC (View_render True True detachedABC)) = []"
proof -
  have e: "eventsSince detachedABC (View_render True True detachedABC) = passEvents (forceAll detachedABC)"
    by (simp add: View_render_now eventsSince_def renderNow_trace)
  have "passEvents (forceAll detachedABC) = [ActualRender]"
    by (simp add: pass_eval example_defs)
  with e show ?thesis
    by (simp add: example_defs)
qed

text \<open>
  C7 (single viewport snapshot per pass), as amended. One invocation of \<open>_actualRender\<close>
  constructs at most one \<open>ViewportData\<close>, and exactly one when the view is in the DOM and
  the view lines or some part are dirty. Every call of the pass that is given viewport data,
  directly or inside the rendering context, is given that one value, constructed in this
  pass from the state the pass started in.
\<close>

theorem single_viewport_snapshot_per_pass:
  "length (filter constructsViewportData (passTrace s)) \<le> 1 \<and>
   (inDOM s \<and> (viewLines_shouldRender s \<or> getViewPartsToRender s \<noteq> []) \<longrightarrow>
      filter constructsViewportData (passTrace s) = [NewViewportData (newViewportData s)]) \<and>
   (\<forall>ev\<in>set (passTrace s). \<forall>vd. viewportOf ev = Some vd \<longrightarrow>
      vd = newViewportData s \<and> NewViewportData vd \<in> set (passTrace s))"
proof (intro conjI impI ballI allI)
  show "length (filter constructsViewportData (passTrace s)) \<le> 1"
    by (simp add: passTrace_eq filter_cvd_passEvents)
  show "filter constructsViewportData (passTrace s) = [NewViewportData (newViewportData s)]"
    if "inDOM s \<and> (viewLines_shouldRender s \<or> getViewPartsToRender s \<noteq> [])"
    using that
    by (auto simp add: passTrace_eq filter_cvd_passEvents passCutShort_def getViewPartsToRender_filter)
next
  fix ev vd
  assume h: "ev \<in> set (passTrace s)" "viewportOf ev = Some vd"
  then show "vd = newViewportData s"
    by (simp add: passTrace_eq viewportOf_passEvents)
  from h have "\<not> passCutShort s"
    by (auto simp add: passTrace_eq passEvents_def split: if_splits)
  then have "NewViewportData (newViewportData s) \<in> set (passEvents s)"
    by (simp add: passEvents_def)
  with \<open>vd = newViewportData s\<close> show "NewViewportData vd \<in> set (passTrace s)"
    by (simp add: passTrace_eq)
qed

theorem single_viewport_snapshot_per_pass_witness:
  "inDOM allDirty \<and> (viewLines_shouldRender allDirty \<or> getViewPartsToRender allDirty \<noteq> []) \<and>
   filter constructsViewportData (passTrace allDirty) = [NewViewportData (newViewportData allDirty)] \<and>
   Render 3 (RenderingContext (newViewportData allDirty)) \<in> set (passTrace allDirty) \<and>
   viewportOf (Render 3 (RenderingContext (newViewportData allDirty))) = Some (newViewportData allDirty) \<and>
   NewViewportData (newViewportData allDirty) \<in> set (passTrace allDirty)"
proof -
  have h: "inDOM allDirty \<and> (viewLines_shouldRender allDirty \<or> getViewPartsToRender allDirty \<noteq> [])"
    by (simp add: example_defs viewLines_shouldRender_def)
  have m: "Render 3 (RenderingContext (newViewportData allDirty)) \<in> set (passTrace allDirty)"
    by (simp add: passTrace_eq allDirty_events)
  have v: "viewportOf (Render 3 (RenderingContext (newViewportData allDirty))) = Some (newViewportData allDirty)"
    by simp
  from single_viewport_snapshot_per_pass [of allDirty] h
  have 1: "filter constructsViewportData (passTrace allDirty) = [NewViewportData (newViewportData allDirty)]"
    by blast
  from single_viewport_snapshot_per_pass [of allDirty] m v
  have 2: "NewViewportData (newViewportData allDirty) \<in> set (passTrace allDirty)"
    by blast
  from h m v 1 2 show ?thesis by simp
qed

text \<open>
  C7 as stated fails on a pass with nothing to render: \<open>_actualRender\<close> returns at its
  second guard and constructs no \<open>ViewportData\<close>.
\<close>

theorem single_viewport_nothing_dirty_counterexample:
  "passTrace (freshView countingZones) = [ActualRender] \<and>
   length (filter constructsViewportData (passTrace (freshView countingZones))) = 0"
  by (simp add: passTrace_eq pass_eval example_defs)




subsection \<open>The key of a marker\<close>

text \<open>
  C9 (marker key canonicalization is injective on safe inputs). For two markers whose
  \<open>source\<close>, \<open>code\<close> and \<open>message\<close> are non-empty and free of the broken bar, whose severity is
  Error, Warning or Info, and whose four position numbers are defined, \<open>makeKey\<close> returns the
  same string exactly if they agree on \<open>source\<close>, \<open>code\<close>, \<open>severity\<close>, \<open>message\<close> and the four
  position numbers. The position numbers are any JavaScript numbers, and two of them agree
  when they are the same number (NaN with NaN, a zero with a zero). The three display
  strings are taken to be different and free of the bar, as the untranslated ones are, and
  the digits the engine prints for a position number to denote a real that rounds to it, as
  ECMAScript asks.
\<close>

theorem makeKey_injective_on_safe_inputs:
  assumes "severityNamesOk localize" and "safeMarker a" and "safeMarker b"
    and "positionsOk rounded shortest a" and "positionsOk rounded shortest b"
  shows "makeKey localize shortest a = makeKey localize shortest b \<longleftrightarrow> sameKeyFields a b"
proof -
  from makeKey_safe [OF assms(2), of localize shortest] obtain src cd sev n1 n2 n3 n4 where
    a: "source a = Some src" "code a = Some cd" "severity a = Some sev"
       "startLineNumber a = Some n1" "startColumn a = Some n2"
       "endLineNumber a = Some n3" "endColumn a = Some n4"
       "brokenBar \<notin> set src" "brokenBar \<notin> set cd" "brokenBar \<notin> set (message a)"
       "sev = Error \<or> sev = Warning \<or> sev = Info"
    and ka: "makeKey localize shortest a =
       brokenBar # src @ brokenBar # cd @ brokenBar # MarkerSeverity_toString localize sev @
       brokenBar # message a @ brokenBar # Number_toString shortest n1 @
       brokenBar # Number_toString shortest n2 @ brokenBar # Number_toString shortest n3 @
       brokenBar # Number_toString shortest n4 @ [brokenBar]"
    by blast
  from makeKey_safe [OF assms(3), of localize shortest] obtain src' cd' sev' n1' n2' n3' n4' where
    b: "source b = Some src'" "code b = Some cd'" "severity b = Some sev'"
       "startLineNumber b = Some n1'" "startColumn b = Some n2'"
       "endLineNumber b = Some n3'" "endColumn b = Some n4'"
       "brokenBar \<notin> set src'" "brokenBar \<notin> set cd'" "brokenBar \<notin> set (message b)"
       "sev' = Error \<or> sev' = Warning \<or> sev' = Info"
    and kb: "makeKey localize shortest b =
       brokenBar # src' @ brokenBar # cd' @ brokenBar # MarkerSeverity_toString localize sev' @
       brokenBar # message b @ brokenBar # Number_toString shortest n1' @
       brokenBar # Number_toString shortest n2' @ brokenBar # Number_toString shortest n3' @
       brokenBar # Number_toString shortest n4' @ [brokenBar]"
    by blast
  from assms(4) a have oka: "digitsOk rounded shortest n1" "digitsOk rounded shortest n2"
      "digitsOk rounded shortest n3" "digitsOk rounded shortest n4"
    by (simp_all add: positionsOk_def)
  from assms(5) b have okb: "digitsOk rounded shortest n1'" "digitsOk rounded shortest n2'"
      "digitsOk rounded shortest n3'" "digitsOk rounded shortest n4'"
    by (simp_all add: positionsOk_def)
  show ?thesis
  proof
    assume k: "makeKey localize shortest a = makeKey localize shortest b"
    note sp = split_at_separator [where c = brokenBar]
    note nb = brokenBar_not_in_number [of shortest]
    from k ka kb have 0: "src @ brokenBar # cd @ brokenBar # MarkerSeverity_toString localize sev @
         brokenBar # message a @ brokenBar # Number_toString shortest n1 @
         brokenBar # Number_toString shortest n2 @ brokenBar # Number_toString shortest n3 @
         brokenBar # Number_toString shortest n4 @ [brokenBar] =
       src' @ brokenBar # cd' @ brokenBar # MarkerSeverity_toString localize sev' @
         brokenBar # message b @ brokenBar # Number_toString shortest n1' @
         brokenBar # Number_toString shortest n2' @ brokenBar # Number_toString shortest n3' @
         brokenBar # Number_toString shortest n4' @ [brokenBar]"
      by simp
    from sp [OF a(8) b(8) 0] have 1: "src = src'"
      and r1: "cd @ brokenBar # MarkerSeverity_toString localize sev @
         brokenBar # message a @ brokenBar # Number_toString shortest n1 @
         brokenBar # Number_toString shortest n2 @ brokenBar # Number_toString shortest n3 @
         brokenBar # Number_toString shortest n4 @ [brokenBar] =
       cd' @ brokenBar # MarkerSeverity_toString localize sev' @
         brokenBar # message b @ brokenBar # Number_toString shortest n1' @
         brokenBar # Number_toString shortest n2' @ brokenBar # Number_toString shortest n3' @
         brokenBar # Number_toString shortest n4' @ [brokenBar]"
      by simp_all
    from sp [OF a(9) b(9) r1] have 2: "cd = cd'"
      and r2: "MarkerSeverity_toString localize sev @
         brokenBar # message a @ brokenBar # Number_toString shortest n1 @
         brokenBar # Number_toString shortest n2 @ brokenBar # Number_toString shortest n3 @
         brokenBar # Number_toString shortest n4 @ [brokenBar] =
       MarkerSeverity_toString localize sev' @
         brokenBar # message b @ brokenBar # Number_toString shortest n1' @
         brokenBar # Number_toString shortest n2' @ brokenBar # Number_toString shortest n3' @
         brokenBar # Number_toString shortest n4' @ [brokenBar]"
      by simp_all
    from sp [OF severity_name_free [OF assms(1) a(11)] severity_name_free [OF assms(1) b(11)] r2]
    have s3: "MarkerSeverity_toString localize sev = MarkerSeverity_toString localize sev'"
      and r3: "message a @ brokenBar # Number_toString shortest n1 @
         brokenBar # Number_toString shortest n2 @ brokenBar # Number_toString shortest n3 @
         brokenBar # Number_toString shortest n4 @ [brokenBar] =
       message b @ brokenBar # Number_toString shortest n1' @
         brokenBar # Number_toString shortest n2' @ brokenBar # Number_toString shortest n3' @
         brokenBar # Number_toString shortest n4' @ [brokenBar]"
      by simp_all
    from severity_name_inj [OF assms(1) a(11) b(11) s3] have 3: "sev = sev'" .
    from sp [OF a(10) b(10) r3] have 4: "message a = message b"
      and r4: "Number_toString shortest n1 @
         brokenBar # Number_toString shortest n2 @ brokenBar # Number_toString shortest n3 @
         brokenBar # Number_toString shortest n4 @ [brokenBar] =
       Number_toString shortest n1' @
         brokenBar # Number_toString shortest n2' @ brokenBar # Number_toString shortest n3' @
         brokenBar # Number_toString shortest n4' @ [brokenBar]"
      by simp_all
    from sp [OF nb nb r4]
    have 5: "Number_toString shortest n1 = Number_toString shortest n1'"
      and r5: "Number_toString shortest n2 @ brokenBar # Number_toString shortest n3 @
         brokenBar # Number_toString shortest n4 @ [brokenBar] =
       Number_toString shortest n2' @ brokenBar # Number_toString shortest n3' @
         brokenBar # Number_toString shortest n4' @ [brokenBar]"
      by simp_all
    from sp [OF nb nb r5]
    have 6: "Number_toString shortest n2 = Number_toString shortest n2'"
      and r6: "Number_toString shortest n3 @ brokenBar # Number_toString shortest n4 @ [brokenBar] =
       Number_toString shortest n3' @ brokenBar # Number_toString shortest n4' @ [brokenBar]"
      by simp_all
    from sp [OF nb nb r6]
    have 7: "Number_toString shortest n3 = Number_toString shortest n3'"
      and r7: "Number_toString shortest n4 @ [brokenBar] = Number_toString shortest n4' @ [brokenBar]"
      by simp_all
    from r7 have 8: "Number_toString shortest n4 = Number_toString shortest n4'" by simp
    note inj = Number_toString_inj [where rounded = rounded and shortest = shortest]
    from inj [OF oka(1) okb(1) 5] inj [OF oka(2) okb(2) 6] inj [OF oka(3) okb(3) 7]
      inj [OF oka(4) okb(4) 8] 1 2 3 4
    show "sameKeyFields a b"
      by (simp add: sameKeyFields_def a b)
  next
    assume "sameKeyFields a b"
    with a b have e: "src = src'" "cd = cd'" "sev = sev'" "message a = message b"
        "SameValueZero n1 n1'" "SameValueZero n2 n2'" "SameValueZero n3 n3'" "SameValueZero n4 n4'"
      by (simp_all add: sameKeyFields_def)
    from e(5-8) have "Number_toString shortest n1 = Number_toString shortest n1'"
        "Number_toString shortest n2 = Number_toString shortest n2'"
        "Number_toString shortest n3 = Number_toString shortest n3'"
        "Number_toString shortest n4 = Number_toString shortest n4'"
      by (simp_all add: Number_toString_same)
    with e(1-4) ka kb show "makeKey localize shortest a = makeKey localize shortest b"
      by simp
  qed
qed


theorem makeKey_injective_on_safe_inputs_witness:
  "severityNamesOk untranslated \<and>
   safeMarker exampleMarker \<and> positionsOk exactly integerDigits exampleMarker \<and>
   safeMarker (exampleMarker\<lparr>endColumn := Some (Finite 120)\<rparr>) \<and>
   positionsOk exactly integerDigits (exampleMarker\<lparr>endColumn := Some (Finite 120)\<rparr>) \<and>
   makeKey untranslated integerDigits exampleMarker =
     brokenBar # lit ''ts'' @ brokenBar # lit ''2304'' @ brokenBar # lit ''Error'' @
     brokenBar # lit ''Cannot find name'' @ brokenBar # lit ''1'' @ brokenBar # lit ''2'' @
     brokenBar # lit ''1'' @ brokenBar # lit ''12'' @ [brokenBar] \<and>
   \<not> sameKeyFields exampleMarker (exampleMarker\<lparr>endColumn := Some (Finite 120)\<rparr>) \<and>
   makeKey untranslated integerDigits exampleMarker \<noteq>
     makeKey untranslated integerDigits (exampleMarker\<lparr>endColumn := Some (Finite 120)\<rparr>) \<and>
   safeMarker (exampleMarker\<lparr>startColumn := Some NegZero, endColumn := Some NaN\<rparr>) \<and>
   positionsOk exactly integerDigits (exampleMarker\<lparr>startColumn := Some NegZero, endColumn := Some NaN\<rparr>) \<and>
   safeMarker (exampleMarker\<lparr>startColumn := Some (Finite 0), endColumn := Some NaN\<rparr>) \<and>
   positionsOk exactly integerDigits (exampleMarker\<lparr>startColumn := Some (Finite 0), endColumn := Some NaN\<rparr>) \<and>
   sameKeyFields (exampleMarker\<lparr>startColumn := Some NegZero, endColumn := Some NaN\<rparr>)
     (exampleMarker\<lparr>startColumn := Some (Finite 0), endColumn := Some NaN\<rparr>) \<and>
   makeKey untranslated integerDigits (exampleMarker\<lparr>startColumn := Some NegZero, endColumn := Some NaN\<rparr>) =
     makeKey untranslated integerDigits (exampleMarker\<lparr>startColumn := Some (Finite 0), endColumn := Some NaN\<rparr>)"
proof -
  let ?far = "exampleMarker\<lparr>endColumn := Some (Finite 120)\<rparr>"
  let ?neg = "exampleMarker\<lparr>startColumn := Some NegZero, endColumn := Some NaN\<rparr>"
  let ?pos = "exampleMarker\<lparr>startColumn := Some (Finite 0), endColumn := Some NaN\<rparr>"
  have ok: "severityNamesOk untranslated"
    by (simp add: severityNamesOk_def untranslated_def lit_def brokenBar_def)
  have s1: "safeMarker exampleMarker" and s2: "safeMarker ?far" and s3: "safeMarker ?neg"
    and s4: "safeMarker ?pos"
    by (simp_all add: safeMarker_def safeString_def exampleMarker_def lit_def brokenBar_def)
  have p1: "positionsOk exactly integerDigits exampleMarker"
    and p2: "positionsOk exactly integerDigits ?far"
    and p3: "positionsOk exactly integerDigits ?neg"
    and p4: "positionsOk exactly integerDigits ?pos"
    by (simp_all add: positions_eval)
  have k: "makeKey untranslated integerDigits exampleMarker =
     brokenBar # lit ''ts'' @ brokenBar # lit ''2304'' @ brokenBar # lit ''Error'' @
     brokenBar # lit ''Cannot find name'' @ brokenBar # lit ''1'' @ brokenBar # lit ''2'' @
     brokenBar # lit ''1'' @ brokenBar # lit ''12'' @ [brokenBar]"
    by (simp add: marker_eval)
  have d: "\<not> sameKeyFields exampleMarker ?far"
    by (simp add: sameKeyFields_def exampleMarker_def SameValueZero_def isZero_def)
  have e: "sameKeyFields ?neg ?pos"
    by (simp add: sameKeyFields_def exampleMarker_def SameValueZero_def isZero_def)
  from makeKey_injective_on_safe_inputs [OF ok s1 s2 p1 p2] d
  have 1: "makeKey untranslated integerDigits exampleMarker \<noteq> makeKey untranslated integerDigits ?far"
    by simp
  from makeKey_injective_on_safe_inputs [OF ok s3 s4 p3 p4] e
  have 2: "makeKey untranslated integerDigits ?neg = makeKey untranslated integerDigits ?pos"
    by simp
  from ok s1 s2 s3 s4 p1 p2 p3 p4 k d e 1 2 show ?thesis by simp
qed

subsection \<open>The languages registry\<close>

text \<open>
  C8 (language registry id consistency). The registry keeps its ids consistent for the
  string ids it stores as own properties of \<open>_languages\<close> (the lemma \<open>reachable_inv\<close>), and
  misses the claim on two string ids. A language registered with the empty string as its id
  gets the numeric id 1; \<open>getLanguageIdentifier('')\<close> returns its identifier, and
  \<open>getLanguageIdentifier(1)\<close> returns \<open>null\<close>, because the test for a hole of \<open>_languageIds\<close>,
  \<open>!modeId\<close>, also rejects the empty string. A language registered with the id \<open>__proto__\<close>
  gets the numeric id 1, recorded in \<open>_languageIds\<close>, and is never an own property of
  \<open>_languages\<close>: \<open>getLanguageIdentifier(1)\<close> returns \<open>null\<close>, and registering the same id
  again allocates the numeric id 2.
\<close>

theorem language_registry_ids_not_consistent:
  "map_option languageIdentifier (languages (registerLanguage (plainLanguage []) emptyRegistry) []) =
     Some \<lparr>language = [], lid = 1\<rparr> \<and>
   getLanguageIdentifier (lit ''vs.editor.nullMode'') 0
     (registerLanguage (plainLanguage []) emptyRegistry) (ModeString []) =
     Some \<lparr>language = [], lid = 1\<rparr> \<and>
   getLanguageIdentifier (lit ''vs.editor.nullMode'') 0
     (registerLanguage (plainLanguage []) emptyRegistry) (ModeNumber 1) = None \<and>
   languageIds (registerLanguage (plainLanguage (lit ''__proto__'')) emptyRegistry) 1 =
     Some (lit ''__proto__'') \<and>
   languages (registerLanguage (plainLanguage (lit ''__proto__'')) emptyRegistry) (lit ''__proto__'') =
     None \<and>
   getLanguageIdentifier (lit ''vs.editor.nullMode'') 0
     (registerLanguage (plainLanguage (lit ''__proto__'')) emptyRegistry) (ModeNumber 1) = None \<and>
   nextLanguageId (registerLanguage (plainLanguage (lit ''__proto__'')) emptyRegistry) = 2 \<and>
   nextLanguageId (registerLanguage (plainLanguage (lit ''__proto__''))
     (registerLanguage (plainLanguage (lit ''__proto__'')) emptyRegistry)) = 3 \<and>
   languageIds (registerLanguage (plainLanguage (lit ''__proto__''))
     (registerLanguage (plainLanguage (lit ''__proto__'')) emptyRegistry)) 2 =
     Some (lit ''__proto__'')"
  by (simp add: registry_eval)

end
